theory Spec2Isabelle
  imports Main
begin

section \<open>Container list items: name validation on submit (util.ts, ContainerItem)\<close>

text \<open>
  A \<open>ContainerItem\<close> is the list entry of a workspace or of a channel. Its \<open>submit\<close>
  handler is bound to the \<open>keyup\<close> event of the name input and to the \<open>click\<close> event
  of the confirm button. The record keeps the fields the handler reads and writes; the
  DOM class lists it touches are kept as booleans.
\<close>

datatype ContainerType = Workspace | Channel

datatype ui_event = KeyboardEvent string | MouseEvent | OtherEvent

datatype app_event =
    CreateEvent ContainerType string string string
  | ReactEvent string string bool
  | NamedEvent string

record ContainerItem =
  itemType :: ContainerType
  inputValue :: string
  itemDisabled :: bool
  parentName :: string
  datasetId :: string
  containerNameLabel :: string
  errorDisplay :: string
  errorShown :: bool
  inputHidden :: bool
  labelHidden :: bool
  inputBoxHidden :: bool
  waiting :: bool
  trashBtnDisabled :: bool
  createBtnDisabled :: bool
  removed :: bool

definition apostrophe :: char where
  "apostrophe = CHR 0x27"

definition dquote :: char where
  "dquote = CHR 0x22"

definition backslash :: char where
  "backslash = CHR 0x5C"

definition quoted :: "string \<Rightarrow> string" where
  "quoted s = apostrophe # s @ [apostrophe]"

text \<open>The text of the message passed to \<open>showError\<close> for a name with a forbidden character.\<close>

definition invalid_character_msg :: string where
  "invalid_character_msg =
     ''Contains invalid character. Cannot contain '' @ quoted ''/'' @ '', '' @ quoted ''.''
       @ '', '' @ quoted [dquote] @ '' or '' @ quoted [backslash]"

text \<open>\<open>String.prototype.includes\<close> with a one-character argument.\<close>

definition includes_char :: "string \<Rightarrow> char \<Rightarrow> bool" where
  "includes_char s c = (c \<in> set s)"

definition showError :: "string \<Rightarrow> ContainerItem \<Rightarrow> ContainerItem" where
  "showError msg it = it\<lparr>errorDisplay := msg, errorShown := True\<rparr>"

definition removeError :: "ContainerItem \<Rightarrow> ContainerItem" where
  "removeError it = it\<lparr>errorDisplay := [], errorShown := False\<rparr>"

definition disableItem :: "ContainerItem \<Rightarrow> ContainerItem" where
  "disableItem it =
     it\<lparr>itemDisabled := True, waiting := True, trashBtnDisabled := True, createBtnDisabled := True\<rparr>"

text \<open>
  \<open>submit\<close> returns the item after the handler and the events it dispatched on the
  document, in order.
\<close>

definition submit :: "ui_event \<Rightarrow> ContainerItem \<Rightarrow> ContainerItem \<times> app_event list" where
  "submit ev it =
     (if ev = KeyboardEvent ''Escape'' then (it\<lparr>removed := True\<rparr>, [])
      else if ev = KeyboardEvent ''Enter'' \<or> ev = MouseEvent then
        (if itemDisabled it then (it, [])
         else if inputValue it = [] then (showError ''Empty input'' it, [])
         else if includes_char (inputValue it) CHR ''/'' \<or> inputValue it = ''.''
                 \<or> inputValue it = ''..'' \<or> includes_char (inputValue it) backslash
                 \<or> includes_char (inputValue it) dquote
           then (showError invalid_character_msg it, [])
         else
           (let it1 = removeError it;
                it2 = it1\<lparr>containerNameLabel := inputValue it1\<rparr>;
                it3 = disableItem it2;
                it4 = it3\<lparr>inputHidden := True, labelHidden := False, inputBoxHidden := True\<rparr>;
                workspace = (if itemType it4 = Workspace then inputValue it4 else parentName it4);
                channel = (if itemType it4 = Workspace then [] else inputValue it4)
            in (it4, [CreateEvent (itemType it4) workspace channel (datasetId it4)])))
      else (it, []))"

text \<open>
  The rejection rule in the words of the specification: the empty name, the names
  \<open>.\<close> and \<open>..\<close>, and every name containing a slash, a backslash or a double quote.
\<close>

definition spec_name_rejected :: "string \<Rightarrow> bool" where
  "spec_name_rejected n =
     (n = [] \<or> n = ''.'' \<or> n = ''..'' \<or> CHR ''/'' \<in> set n \<or> backslash \<in> set n \<or> dquote \<in> set n)"

definition is_submit_event :: "ui_event \<Rightarrow> bool" where
  "is_submit_event ev = (ev = KeyboardEvent ''Enter'' \<or> ev = MouseEvent)"

definition example_item :: "string \<Rightarrow> ContainerItem" where
  "example_item n =
     \<lparr>itemType = Workspace, inputValue = n, itemDisabled = False, parentName = [],
      datasetId = ''uuid-1'', containerNameLabel = [], errorDisplay = [], errorShown = False,
      inputHidden = False, labelHidden = True, inputBoxHidden = False, waiting = False,
      trashBtnDisabled = False, createBtnDisabled = False, removed = False\<rparr>"

section \<open>Post elements and their reaction controls (components/post-element.ts)\<close>

text \<open>
  The \<open>reactions\<close> object of a post document. The schema allows any of the four keys
  to be missing, so each is optional; a present key holds the array of user names.
\<close>

record PostReactions =
  r_smile :: "string list option"
  r_frown :: "string list option"
  r_like :: "string list option"
  r_celebrate :: "string list option"

text \<open>
  A reaction button: its \<open>disabled\<close> attribute (set by a click, the pending state) and
  whether its class list contains \<open>clicked\<close> (the displayed membership).
\<close>

record Button =
  disabled :: bool
  clicked :: bool

text \<open>
  A child of a list element of the page: a post element or a reply box, each named by
  the number of the object (the order of construction).
\<close>

datatype node = PostNode nat | ReplyBoxNode nat

text \<open>
  The state of a \<open>PostElement\<close>. The counts are the numbers shown in the count
  paragraphs; \<open>replies\<close> is the child list of the \<open>#post-replies\<close> list. The header
  and body paragraphs and the channel and workspace names only feed rendering and the
  reply box and are not kept.
\<close>

record PostElement =
  postId :: string
  createdAt :: int
  currUser :: string
  smileBtn :: Button
  smileCnt :: nat
  frownBtn :: Button
  frownCnt :: nat
  likeBtn :: Button
  likeCnt :: nat
  celebrateBtn :: Button
  celebrateCnt :: nat
  replyMode :: bool
  replies :: "node list"

datatype ReactionKind = Smile | Frown | Like | Celebrate

definition button_id :: "ReactionKind \<Rightarrow> string" where
  "button_id k = (case k of Smile \<Rightarrow> ''smile'' | Frown \<Rightarrow> ''frown''
                   | Like \<Rightarrow> ''like'' | Celebrate \<Rightarrow> ''celebrate'')"

definition kind_btn :: "ReactionKind \<Rightarrow> PostElement \<Rightarrow> Button" where
  "kind_btn k el = (case k of Smile \<Rightarrow> smileBtn el | Frown \<Rightarrow> frownBtn el
                     | Like \<Rightarrow> likeBtn el | Celebrate \<Rightarrow> celebrateBtn el)"

definition kind_cnt :: "ReactionKind \<Rightarrow> PostElement \<Rightarrow> nat" where
  "kind_cnt k el = (case k of Smile \<Rightarrow> smileCnt el | Frown \<Rightarrow> frownCnt el
                     | Like \<Rightarrow> likeCnt el | Celebrate \<Rightarrow> celebrateCnt el)"

definition kind_users :: "ReactionKind \<Rightarrow> PostReactions \<Rightarrow> string list option" where
  "kind_users k r = (case k of Smile \<Rightarrow> r_smile r | Frown \<Rightarrow> r_frown r
                      | Like \<Rightarrow> r_like r | Celebrate \<Rightarrow> r_celebrate r)"

text \<open>
  The constructor's rendering of one reaction kind: the count is the length of the array
  when the object and the key are present and 0 otherwise; the button starts enabled and
  gets the class \<open>clicked\<close> when the current user is in the array.
\<close>

definition initial_count :: "string list option \<Rightarrow> nat" where
  "initial_count us = (case us of None \<Rightarrow> 0 | Some l \<Rightarrow> length l)"

definition initial_button :: "string \<Rightarrow> string list option \<Rightarrow> Button" where
  "initial_button user us =
     \<lparr>disabled = False, clicked = (case us of None \<Rightarrow> False | Some l \<Rightarrow> user \<in> set l)\<rparr>"

definition new_PostElement ::
  "PostReactions option \<Rightarrow> string \<Rightarrow> string \<Rightarrow> int \<Rightarrow> PostElement" where
  "new_PostElement reactionsObj pid user created =
     \<lparr>postId = pid, createdAt = created, currUser = user,
      smileBtn = initial_button user (Option.bind reactionsObj r_smile),
      smileCnt = initial_count (Option.bind reactionsObj r_smile),
      frownBtn = initial_button user (Option.bind reactionsObj r_frown),
      frownCnt = initial_count (Option.bind reactionsObj r_frown),
      likeBtn = initial_button user (Option.bind reactionsObj r_like),
      likeCnt = initial_count (Option.bind reactionsObj r_like),
      celebrateBtn = initial_button user (Option.bind reactionsObj r_celebrate),
      celebrateCnt = initial_count (Option.bind reactionsObj r_celebrate),
      replyMode = False, replies = []\<rparr>"

text \<open>
  \<open>react\<close>, the click handler of the four reaction buttons: it disables the button that
  was clicked and dispatches a \<open>reactEvent\<close> with the button's id, the post id and
  whether the button carried the class \<open>clicked\<close>. It changes neither a count nor a
  class list.
\<close>

definition react :: "ReactionKind \<Rightarrow> PostElement \<Rightarrow> PostElement \<times> app_event" where
  "react k el =
     (let ev = ReactEvent (button_id k) (postId el) (clicked (kind_btn k el)) in
      case k of
        Smile \<Rightarrow> (el\<lparr>smileBtn := (smileBtn el)\<lparr>disabled := True\<rparr>\<rparr>, ev)
      | Frown \<Rightarrow> (el\<lparr>frownBtn := (frownBtn el)\<lparr>disabled := True\<rparr>\<rparr>, ev)
      | Like \<Rightarrow> (el\<lparr>likeBtn := (likeBtn el)\<lparr>disabled := True\<rparr>\<rparr>, ev)
      | Celebrate \<Rightarrow> (el\<lparr>celebrateBtn := (celebrateBtn el)\<lparr>disabled := True\<rparr>\<rparr>, ev))"

text \<open>
  One of the four blocks of \<open>renderReactions\<close>: both branches give the button the
  server's membership; only the first, taken when the button is disabled and its class
  differs from the server's value, enables the button again.
\<close>

definition renderButton :: "bool \<Rightarrow> Button \<Rightarrow> Button" where
  "renderButton inKind b =
     (if disabled b \<and> clicked b \<noteq> inKind
      then (b\<lparr>clicked := inKind\<rparr>)\<lparr>disabled := False\<rparr>
      else b\<lparr>clicked := inKind\<rparr>)"

definition renderReactions ::
  "nat \<Rightarrow> bool \<Rightarrow> nat \<Rightarrow> bool \<Rightarrow> nat \<Rightarrow> bool \<Rightarrow> nat \<Rightarrow> bool \<Rightarrow> PostElement \<Rightarrow> PostElement" where
  "renderReactions smileC inSmile frownC inFrown likeC inLike celebrateC inCelebrate el =
     el\<lparr>smileCnt := smileC, smileBtn := renderButton inSmile (smileBtn el),
        frownCnt := frownC, frownBtn := renderButton inFrown (frownBtn el),
        likeCnt := likeC, likeBtn := renderButton inLike (likeBtn el),
        celebrateCnt := celebrateC, celebrateBtn := renderButton inCelebrate (celebrateBtn el)\<rparr>"

definition closeReplyMode :: "PostElement \<Rightarrow> PostElement" where
  "closeReplyMode el = el\<lparr>replyMode := False\<rparr>"

section \<open>The view: active posts, reply buffer and the post tree (views/view.ts)\<close>

text \<open>
  A post as the model delivers it (\<open>ViewPost\<close> without \<open>children\<close>): the path, the
  document with its optional \<open>parent\<close>, \<open>reactions\<close> and \<open>extensions\<close>, and the
  metadata. Timestamps are integers (milliseconds).
\<close>

record PostDoc =
  msg :: string
  parent :: "string option"
  reactions :: "PostReactions option"
  extensions :: "(string \<times> string) list option"

record PostMeta =
  meta_createdAt :: int
  meta_createdBy :: string
  meta_lastModifiedAt :: int
  meta_lastModifiedBy :: string

record ViewPost =
  path :: string
  doc :: PostDoc
  meta :: PostMeta

text \<open>
  What a call can raise: the \<open>HierarchyRequestError\<close> of the DOM, when a node is put
  under itself or under one of its own descendants, and the \<open>Error\<close> objects the view
  throws itself. A call either returns or throws.
\<close>

datatype js_error = HierarchyRequestError | Error string

datatype 'a outcome = Returned 'a | Threw js_error

text \<open>
  The state of the \<open>View\<close> the claims speak about. \<open>elems\<close> holds every
  \<open>PostElement\<close> constructed so far; the position in the list is the identity of the
  object, so that the two maps and the child lists can share and alias elements as the
  source does. \<open>replyBoxes\<close> counts the \<open>ReplyBox\<close> objects constructed.
  \<open>channelPosts\<close> is the child list of the top-level post list of \<open>currContent\<close>, and
  \<open>currChannel\<close> the channel and workspace names \<open>currContent\<close> was built with.
  A \<open>Map\<close> has one value per key and is only read by key here, so both maps
  are partial functions. The elements of a discarded \<open>ChannelContent\<close> stay in
  \<open>elems\<close>, in no child list of the current page.
\<close>

record View =
  elems :: "PostElement list"
  replyBoxes :: nat
  channelPosts :: "node list"
  currChannel :: "string \<times> string"
  postBoxVisible :: bool
  activePosts :: "string \<rightharpoonup> nat"
  replyBuffer :: "string \<rightharpoonup> nat"
  activeReply :: "string option"
  activeReplyBox :: "nat option"

text \<open>The constructor of \<open>View\<close>.\<close>

definition new_View :: View where
  "new_View =
     \<lparr>elems = [], replyBoxes = 0, channelPosts = [],
      currChannel = (''no channel'', ''no workspace''), postBoxVisible = True,
      activePosts = Map.empty, replyBuffer = Map.empty,
      activeReply = None, activeReplyBox = None\<rparr>"

text \<open>A string that may be \<open>undefined\<close> is truthy when it is defined and not empty.\<close>

definition truthy :: "string option \<Rightarrow> bool" where
  "truthy s = (case s of None \<Rightarrow> False | Some t \<Rightarrow> t \<noteq> [])"

subsection \<open>The DOM operations the view uses\<close>

text \<open>
  The lists posts are put into: the top-level list of the channel content, or the reply
  list of a post element.
\<close>

datatype container = TopLevel | Replies nat

definition container_children :: "container \<Rightarrow> View \<Rightarrow> node list" where
  "container_children c v =
     (case c of TopLevel \<Rightarrow> channelPosts v | Replies a \<Rightarrow> replies (elems v ! a))"

definition set_container_children :: "container \<Rightarrow> node list \<Rightarrow> View \<Rightarrow> View" where
  "set_container_children c l v =
     (case c of
        TopLevel \<Rightarrow> v\<lparr>channelPosts := l\<rparr>
      | Replies a \<Rightarrow> v\<lparr>elems := (elems v)[a := (elems v ! a)\<lparr>replies := l\<rparr>]\<rparr>)"

text \<open>
  A node has at most one parent: inserting a node that is already in a list removes it
  from there first, and \<open>remove()\<close> takes it out of its list.
\<close>

definition detach :: "node \<Rightarrow> View \<Rightarrow> View" where
  "detach n v =
     v\<lparr>channelPosts := removeAll n (channelPosts v),
       elems := map (\<lambda>e. e\<lparr>replies := removeAll n (replies e)\<rparr>) (elems v)\<rparr>"

text \<open>The post element whose reply list holds the node, if there is one.\<close>

definition parent_elem :: "View \<Rightarrow> node \<Rightarrow> nat option" where
  "parent_elem v n = find (\<lambda>q. n \<in> set (replies (elems v ! q))) [0..<length (elems v)]"

definition parent_container :: "View \<Rightarrow> node \<Rightarrow> container option" where
  "parent_container v n =
     (if n \<in> set (channelPosts v) then Some TopLevel
      else map_option Replies (parent_elem v n))"

text \<open>
  Whether element \<open>x\<close> is element \<open>a\<close> or one of its ancestors (through the shadow
  roots): the walk up the parents of \<open>a\<close>. The first argument bounds the walk; a chain
  of parents is never longer than the number of elements.
\<close>

fun ancestor_or_self :: "nat \<Rightarrow> View \<Rightarrow> nat \<Rightarrow> nat \<Rightarrow> bool" where
  "ancestor_or_self 0 v x a = (x = a)"
| "ancestor_or_self (Suc k) v x a =
     (x = a \<or> (case parent_elem v (PostNode a) of
                  None \<Rightarrow> False
                | Some q \<Rightarrow> ancestor_or_self k v x q))"

definition hierarchy_ok :: "node \<Rightarrow> container \<Rightarrow> View \<Rightarrow> bool" where
  "hierarchy_ok n c v =
     (case c of
        TopLevel \<Rightarrow> True
      | Replies a \<Rightarrow>
          (case n of
             PostNode x \<Rightarrow> \<not> ancestor_or_self (length (elems v)) v x a
           | ReplyBoxNode b \<Rightarrow> True))"

fun insert_before :: "node \<Rightarrow> node \<Rightarrow> node list \<Rightarrow> node list" where
  "insert_before n r [] = [n]"
| "insert_before n r (x # xs) = (if x = r then n # x # xs else x # insert_before n r xs)"

fun next_sibling :: "node \<Rightarrow> node list \<Rightarrow> node option" where
  "next_sibling n [] = None"
| "next_sibling n [x] = None"
| "next_sibling n (x # y # xs) = (if x = n then Some y else next_sibling n (y # xs))"

text \<open>
  The DOM's pre-insert of a node into a list before a reference child (at the end
  without one): it throws when the node is the owner of the list or an ancestor of it,
  and otherwise moves the node.
\<close>

definition pre_insert :: "node \<Rightarrow> container \<Rightarrow> node option \<Rightarrow> View \<Rightarrow> View outcome" where
  "pre_insert n c ref v =
     (if \<not> hierarchy_ok n c v then Threw HierarchyRequestError
      else
        (let ref' = (if ref = Some n then next_sibling n (container_children c v) else ref);
             v1 = detach n v;
             l = container_children c v1
         in Returned (set_container_children c
              (case ref' of None \<Rightarrow> l @ [n] | Some r \<Rightarrow> insert_before n r l) v1)))"

text \<open>\<open>PostElement.addReply\<close> and \<open>ChannelContent.displayPost\<close>: \<open>append\<close>.\<close>

definition addReply :: "nat \<Rightarrow> node \<Rightarrow> View \<Rightarrow> View outcome" where
  "addReply p n v = pre_insert n (Replies p) None v"

definition displayPost :: "node \<Rightarrow> View \<Rightarrow> View outcome" where
  "displayPost n v = pre_insert n TopLevel None v"

text \<open>
  \<open>r.insertAdjacentElement("beforebegin", n)\<close>: nothing happens when \<open>r\<close> has no
  parent; otherwise \<open>n\<close> is inserted into the parent of \<open>r\<close>, before \<open>r\<close>.
\<close>

definition insert_beforebegin :: "node \<Rightarrow> node \<Rightarrow> View \<Rightarrow> View outcome" where
  "insert_beforebegin r n v =
     (case parent_container v r of
        None \<Rightarrow> Returned v
      | Some c \<Rightarrow> pre_insert n c (Some r) v)"

subsection \<open>Inserting a post in chronological order\<close>

text \<open>
  The loop of \<open>insertPost\<close> over \<open>postList\<close>. \<open>earliestDate\<close> starts at
  \<open>Infinity\<close>, which is \<open>None\<close> here; list entries that are not post elements are
  skipped.
\<close>

definition before_earliest :: "int \<Rightarrow> int option \<Rightarrow> bool" where
  "before_earliest currDate earliestDate =
     (case earliestDate of None \<Rightarrow> True | Some e \<Rightarrow> currDate < e)"

definition scan_step ::
  "PostElement list \<Rightarrow> int \<Rightarrow> int option \<times> node option \<Rightarrow> node \<Rightarrow> int option \<times> node option" where
  "scan_step es newDate acc reply =
     (case reply of
        PostNode r \<Rightarrow>
          (let currDate = createdAt (es ! r) in
           if newDate < currDate \<and> before_earliest currDate (fst acc)
           then (Some currDate, Some reply) else acc)
      | ReplyBoxNode b \<Rightarrow> acc)"

definition find_insertHere :: "PostElement list \<Rightarrow> int \<Rightarrow> node list \<Rightarrow> node option" where
  "find_insertHere es newDate postList = snd (foldl (scan_step es newDate) (None, None) postList)"

text \<open>The insertion itself: before \<open>insertHere\<close>, or at the end of the target list.\<close>

definition place_post :: "nat \<Rightarrow> nat option \<Rightarrow> node list \<Rightarrow> View \<Rightarrow> View outcome" where
  "place_post newPost parentPost postList v =
     (case find_insertHere (elems v) (createdAt (elems v ! newPost)) postList of
        Some insertHere \<Rightarrow> insert_beforebegin insertHere (PostNode newPost) v
      | None \<Rightarrow>
          (case parentPost of
             Some p \<Rightarrow> addReply p (PostNode newPost) v
           | None \<Rightarrow> displayPost (PostNode newPost) v))"

text \<open>
  \<open>insertPost\<close>. After the insertion it goes through the reply buffer; the keys of a
  \<open>Map\<close> are distinct, so at most one entry has the key \<open>newPostPath\<close>, and the
  buffered element is inserted under the new one by a recursive call. No entry is removed
  from the buffer. The result is \<open>None\<close> when the recursion does not end.
\<close>

partial_function (option) insertPost ::
  "nat \<Rightarrow> nat option \<Rightarrow> node list \<Rightarrow> View \<Rightarrow> View outcome option" where
  "insertPost newPost parentPost postList v =
     (case place_post newPost parentPost postList v of
        Threw e \<Rightarrow> Some (Threw e)
      | Returned v1 \<Rightarrow>
          (case replyBuffer v1 (postId (elems v1 ! newPost)) of
             None \<Rightarrow> Some (Returned v1)
           | Some buffered \<Rightarrow>
               insertPost buffered (Some newPost) (replies (elems v1 ! newPost)) v1))"

subsection \<open>Reply mode\<close>

definition close_elem :: "nat \<Rightarrow> View \<Rightarrow> View" where
  "close_elem a v = v\<lparr>elems := (elems v)[a := closeReplyMode (elems v ! a)]\<rparr>"

definition remove_reply_box :: "View \<Rightarrow> View" where
  "remove_reply_box v =
     (case activeReplyBox v of None \<Rightarrow> v | Some b \<Rightarrow> detach (ReplyBoxNode b) v)"

definition replyModeOff :: "string \<Rightarrow> View \<Rightarrow> View" where
  "replyModeOff pid v =
     (let v0 = v\<lparr>postBoxVisible := True\<rparr> in
      case activePosts v0 pid of
        None \<Rightarrow> v0
      | Some targetPost \<Rightarrow>
          (remove_reply_box (close_elem targetPost v0))\<lparr>activeReply := None, activeReplyBox := None\<rparr>)"

definition replyModeOn :: "string \<Rightarrow> View \<Rightarrow> View outcome" where
  "replyModeOn pid v =
     (let v0 = v\<lparr>postBoxVisible := False\<rparr>;
          v1 = (if truthy (activeReply v0)
                then (case activePosts v0 (the (activeReply v0)) of
                        None \<Rightarrow> v0
                      | Some currReplyTarget \<Rightarrow> remove_reply_box (close_elem currReplyTarget v0))
                else v0)
      in case activePosts v1 pid of
           None \<Rightarrow> Returned v1
         | Some targetPost \<Rightarrow>
             addReply targetPost (ReplyBoxNode (replyBoxes v1))
               (v1\<lparr>activeReply := Some pid, activeReplyBox := Some (replyBoxes v1),
                   replyBoxes := Suc (replyBoxes v1)\<rparr>))"

subsection \<open>Reaction updates\<close>

definition users_count :: "string list option \<Rightarrow> nat" where
  "users_count us = (case us of None \<Rightarrow> 0 | Some l \<Rightarrow> length l)"

definition users_include :: "string list option \<Rightarrow> string \<Rightarrow> bool" where
  "users_include us username = (case us of None \<Rightarrow> False | Some l \<Rightarrow> username \<in> set l)"

text \<open>
  \<open>updateReactions\<close> computes, for each of the four kinds, the length of the array and
  whether it includes the user (0 and false for a missing key), and passes the eight values
  to \<open>renderReactions\<close> of the element \<open>activePosts\<close> has for the post; without such
  an element nothing happens.
\<close>

definition apply_reactions :: "PostReactions \<Rightarrow> string \<Rightarrow> PostElement \<Rightarrow> PostElement" where
  "apply_reactions newReactions username el =
     renderReactions
       (users_count (r_smile newReactions)) (users_include (r_smile newReactions) username)
       (users_count (r_frown newReactions)) (users_include (r_frown newReactions) username)
       (users_count (r_like newReactions)) (users_include (r_like newReactions) username)
       (users_count (r_celebrate newReactions)) (users_include (r_celebrate newReactions) username)
       el"

definition updateReactions :: "PostReactions \<Rightarrow> string \<Rightarrow> string \<Rightarrow> View \<Rightarrow> View" where
  "updateReactions newReactions pid username v =
     (case activePosts v pid of
        None \<Rightarrow> v
      | Some targetPost \<Rightarrow>
          v\<lparr>elems := (elems v)[targetPost :=
               apply_reactions newReactions username (elems v ! targetPost)]\<rparr>)"

text \<open>A click on a reaction button of the element at a position of \<open>elems\<close>.\<close>

definition click_reaction :: "ReactionKind \<Rightarrow> nat \<Rightarrow> View \<Rightarrow> View \<times> app_event" where
  "click_reaction k a v =
     (v\<lparr>elems := (elems v)[a := fst (react k (elems v ! a))]\<rparr>, snd (react k (elems v ! a)))"

subsection \<open>Updates from the subscription\<close>

text \<open>
  \<open>handleUpdate\<close>. An update for a path of \<open>activePosts\<close> that carries reactions is a
  reaction update. Every other update builds a new element and enters it into
  \<open>activePosts\<close> first; a reply whose parent is not in \<open>activePosts\<close> is then put
  into the reply buffer under the parent's path, replacing what the buffer held for that
  path, and nothing else happens. Otherwise the element is inserted, and reply mode is
  closed for the parent of a reply the current user wrote. The channel and workspace
  names only go into the new element's reply box data. \<open>new_post_view\<close> is the view
  once the new element is constructed and entered into \<open>activePosts\<close>.
\<close>

definition new_post_view :: "ViewPost \<Rightarrow> string \<Rightarrow> View \<Rightarrow> View" where
  "new_post_view post username v =
     v\<lparr>elems := elems v @ [new_PostElement (reactions (doc post)) (path post) username
                                (meta_createdAt (meta post))],
       activePosts := (activePosts v)(path post \<mapsto> length (elems v))\<rparr>"

definition handleUpdate :: "ViewPost \<Rightarrow> string \<Rightarrow> View \<Rightarrow> View outcome option" where
  "handleUpdate post username v =
     (if activePosts v (path post) \<noteq> None \<and> reactions (doc post) \<noteq> None
      then Some (Returned (updateReactions (the (reactions (doc post))) (path post) username v))
      else
        (let newPostElement = length (elems v);
             v2 = new_post_view post username v
         in
           if truthy (parent (doc post)) \<and> activePosts v2 (the (parent (doc post))) = None
           then Some (Returned
                  (v2\<lparr>replyBuffer := (replyBuffer v2)(the (parent (doc post)) \<mapsto> newPostElement)\<rparr>))
           else
             (let parentPost = (if truthy (parent (doc post))
                                then activePosts v2 (the (parent (doc post))) else None);
                  postList = (case parentPost of
                                Some p \<Rightarrow> replies (elems v2 ! p)
                              | None \<Rightarrow> channelPosts v2)
              in case insertPost newPostElement parentPost postList v2 of
                   None \<Rightarrow> None
                 | Some (Threw e) \<Rightarrow> Some (Threw e)
                 | Some (Returned v3) \<Rightarrow>
                     Some (Returned
                       (if truthy (parent (doc post)) \<and> meta_createdBy (meta post) = username
                        then replyModeOff (the (parent (doc post))) v3 else v3)))))"

subsection \<open>Loading a channel\<close>

text \<open>
  \<open>Object.keys(doc)\<close> is the array of the names of the fields the document has (in
  the order of the message received, here the order of the schema).
\<close>

definition object_keys :: "PostDoc \<Rightarrow> string list" where
  "object_keys d =
     [''msg''] @ (if parent d = None then [] else [''parent''])
       @ (if reactions d = None then [] else [''reactions''])
       @ (if extensions d = None then [] else [''extensions''])"

text \<open>
  The operator \<open>in\<close> applied to an array asks whether the array has a property of that
  name: one of its indices, written in decimal, \<open>length\<close>, or a name inherited from
  \<open>Array.prototype\<close> or \<open>Object.prototype\<close>. The elements of the array are not
  looked at.
\<close>

definition digit_char :: "nat \<Rightarrow> char" where
  "digit_char d = ''0123456789'' ! d"

fun decimal :: "nat \<Rightarrow> string" where
  "decimal n = (if n < 10 then [digit_char n] else decimal (n div 10) @ [digit_char (n mod 10)])"

definition array_prototype_names :: "string list" where
  "array_prototype_names =
     [''at'', ''concat'', ''constructor'', ''copyWithin'', ''entries'', ''every'', ''fill'',
      ''filter'', ''find'', ''findIndex'', ''findLast'', ''findLastIndex'', ''flat'',
      ''flatMap'', ''forEach'', ''includes'', ''indexOf'', ''join'', ''keys'',
      ''lastIndexOf'', ''map'', ''pop'', ''push'', ''reduce'', ''reduceRight'', ''reverse'',
      ''shift'', ''slice'', ''some'', ''sort'', ''splice'', ''toLocaleString'',
      ''toReversed'', ''toSorted'', ''toSpliced'', ''toString'', ''unshift'', ''values'',
      ''with'', ''hasOwnProperty'', ''isPrototypeOf'', ''propertyIsEnumerable'', ''valueOf'',
      ''__proto__'', ''__defineGetter__'', ''__defineSetter__'', ''__lookupGetter__'',
      ''__lookupSetter__'']"

definition in_array :: "string \<Rightarrow> 'a list \<Rightarrow> bool" where
  "in_array name arr =
     (name \<in> set (map decimal [0..<length arr]) \<or> name = ''length''
      \<or> name \<in> set array_prototype_names)"

text \<open>
  The posts of the first loop of \<open>displayChannelContent\<close>: a copy of each post with a
  \<open>children\<close> array. The children are the objects themselves, so they are kept as
  positions in \<open>structuredPosts\<close>.
\<close>

record StructuredPost =
  sp_path :: string
  sp_doc :: PostDoc
  sp_meta :: PostMeta
  sp_children :: "nat list option"

text \<open>One round of the first loop: the post is pushed, then attached to its parents.\<close>

definition structure_step :: "StructuredPost list \<Rightarrow> ViewPost \<Rightarrow> StructuredPost list" where
  "structure_step structuredPosts post =
     (let newViewPost = \<lparr>sp_path = path post, sp_doc = doc post, sp_meta = meta post,
                           sp_children = Some []\<rparr>;
          i = length structuredPosts;
          pushed = structuredPosts @ [newViewPost]
      in if in_array ''parent'' (object_keys (sp_doc newViewPost))
            \<and> parent (sp_doc newViewPost) \<noteq> Some []
         then map (\<lambda>parentPost.
                if sp_children parentPost \<noteq> None
                   \<and> parent (sp_doc newViewPost) = Some (sp_path parentPost)
                then parentPost\<lparr>sp_children := Some (the (sp_children parentPost) @ [i])\<rparr>
                else parentPost) pushed
         else pushed)"

text \<open>
  The loop of \<open>createNestedPosts\<close> over the children of a post; \<open>create\<close> is the
  recursive call.
\<close>

fun nest_children ::
  "(nat \<Rightarrow> View \<Rightarrow> (View \<times> nat) outcome option) \<Rightarrow> StructuredPost list \<Rightarrow> nat \<Rightarrow> nat list
     \<Rightarrow> View \<Rightarrow> View outcome option" where
  "nest_children create sps newPostElement [] v = Some (Returned v)"
| "nest_children create sps newPostElement (child # cs) v =
     (if sp_children (sps ! child) = None then Some (Threw (Error ''Child post has no children''))
      else
        (case create child v of
           None \<Rightarrow> None
         | Some (Threw e) \<Rightarrow> Some (Threw e)
         | Some (Returned (v1, childPostElement)) \<Rightarrow>
             (case addReply newPostElement (PostNode childPostElement) v1 of
                Threw e \<Rightarrow> Some (Threw e)
              | Returned v2 \<Rightarrow> nest_children create sps newPostElement cs v2)))"

text \<open>
  \<open>createNestedPosts\<close>: a new element for the post, entered into \<open>activePosts\<close>, with
  the elements of its children under it. The first argument bounds the depth of the
  recursion; the result is \<open>None\<close> when the bound is reached.
\<close>

primrec createNestedPosts ::
  "nat \<Rightarrow> StructuredPost list \<Rightarrow> string \<Rightarrow> nat \<Rightarrow> View \<Rightarrow> (View \<times> nat) outcome option" where
  "createNestedPosts 0 sps username i v = None"
| "createNestedPosts (Suc k) sps username i v =
     (let post = sps ! i;
          newPostElement = length (elems v);
          v1 = v\<lparr>elems := elems v @ [new_PostElement (reactions (sp_doc post)) (sp_path post)
                                         username (meta_createdAt (sp_meta post))]\<rparr>;
          v2 = v1\<lparr>activePosts := (activePosts v1)(sp_path post \<mapsto> newPostElement)\<rparr>
      in case nest_children (createNestedPosts k sps username) sps newPostElement
                (case sp_children post of None \<Rightarrow> [] | Some cs \<Rightarrow> cs) v2 of
           None \<Rightarrow> None
         | Some (Threw e) \<Rightarrow> Some (Threw e)
         | Some (Returned v3) \<Rightarrow> Some (Returned (v3, newPostElement)))"

text \<open>The second loop of \<open>displayChannelContent\<close>, over \<open>structuredPosts\<close>.\<close>

fun display_roots ::
  "nat \<Rightarrow> StructuredPost list \<Rightarrow> string \<Rightarrow> nat list \<Rightarrow> View \<Rightarrow> View outcome option" where
  "display_roots fuel sps username [] v = Some (Returned v)"
| "display_roots fuel sps username (j # js) v =
     (if sp_children (sps ! j) = None
      then Some (Threw (Error ''Root post does not have children''))
      else if \<not> truthy (parent (sp_doc (sps ! j))) then
        (case createNestedPosts fuel sps username j v of
           None \<Rightarrow> None
         | Some (Threw e) \<Rightarrow> Some (Threw e)
         | Some (Returned (v1, newPostElement)) \<Rightarrow>
             (case displayPost (PostNode newPostElement) v1 of
                Threw e \<Rightarrow> Some (Threw e)
              | Returned v2 \<Rightarrow> display_roots fuel sps username js v2))
      else display_roots fuel sps username js v)"

text \<open>
  \<open>displayChannelContent\<close>. The content area is emptied and \<open>activePosts\<close> cleared; a
  new \<open>ChannelContent\<close> becomes \<open>currContent\<close>, with an empty post list and a visible
  post box. \<open>replyBuffer\<close>, \<open>activeReply\<close> and \<open>activeReplyBox\<close> are not assigned.
  The posts are taken in the order given (the caller sorts them by creation time).
\<close>

definition displayChannelContent ::
  "nat \<Rightarrow> string \<Rightarrow> ViewPost list \<Rightarrow> string \<Rightarrow> string \<Rightarrow> View \<Rightarrow> View outcome option" where
  "displayChannelContent fuel channelName posts workspaceName username v =
     (let v0 = v\<lparr>activePosts := Map.empty, channelPosts := [],
                  currChannel := (channelName, workspaceName), postBoxVisible := True\<rparr>;
          structuredPosts = foldl structure_step [] posts
      in display_roots fuel structuredPosts username [0..<length structuredPosts] v0)"

section \<open>The error banner and its retry timer (views/error-view.ts)\<close>

text \<open>
  The \<open>ErrorView\<close> with the part of the browser it talks to: the click listeners on
  its two buttons, each with the abort controller whose signal it was registered with
  (if any), the timeouts and intervals that are pending, and the events dispatched on
  the document. Timer ids are positive and never reused. A timeout of \<open>setTimeout\<close>
  is cancelled by \<open>clearTimeout\<close> only: what follows the delay in the call are
  arguments for the callback, so the object with the signal that \<open>showRetriableError\<close>
  passes there does not tie the timeout to the controller.
\<close>

datatype banner_button = CancelBtn | RetryBtn

datatype listener_action = CloseBanner | AbortClose app_event | Retry app_event

record Listener =
  l_button :: banner_button
  l_action :: listener_action
  l_signal :: "nat option"

record ErrorView =
  errorMsgText :: string
  ev_msg :: string
  boxDisplayed :: bool
  retryHidden :: bool
  cancelHidden :: bool
  timeoutId :: "nat option"
  controller :: nat
  controllers :: nat
  listeners :: "Listener list"
  timeouts :: "(nat \<times> app_event) list"
  intervals :: "(nat \<times> int) list"
  timerIds :: nat
  dispatched :: "app_event list"

definition new_ErrorView :: ErrorView where
  "new_ErrorView =
     \<lparr>errorMsgText = ''Server not connected.'', ev_msg = [], boxDisplayed = False,
      retryHidden = False, cancelHidden = False, timeoutId = None, controller = 0,
      controllers = 1, listeners = [], timeouts = [], intervals = [], timerIds = 0,
      dispatched = []\<rparr>"

text \<open>\<open>this.controller.abort()\<close> removes the listeners registered with its signal.\<close>

definition abort_controller :: "ErrorView \<Rightarrow> ErrorView" where
  "abort_controller ev =
     ev\<lparr>listeners := filter (\<lambda>l. l_signal l \<noteq> Some (controller ev)) (listeners ev)\<rparr>"

definition new_controller :: "ErrorView \<Rightarrow> ErrorView" where
  "new_controller ev = ev\<lparr>controller := controllers ev, controllers := Suc (controllers ev)\<rparr>"

definition add_listener :: "banner_button \<Rightarrow> listener_action \<Rightarrow> nat option \<Rightarrow> ErrorView \<Rightarrow> ErrorView" where
  "add_listener b a sig ev =
     ev\<lparr>listeners := listeners ev @ [\<lparr>l_button = b, l_action = a, l_signal = sig\<rparr>]\<rparr>"

definition dispatchEvent :: "app_event \<Rightarrow> ErrorView \<Rightarrow> ErrorView" where
  "dispatchEvent e ev = ev\<lparr>dispatched := dispatched ev @ [e]\<rparr>"

definition clearTimeout :: "nat \<Rightarrow> ErrorView \<Rightarrow> ErrorView" where
  "clearTimeout i ev = ev\<lparr>timeouts := filter (\<lambda>t. fst t \<noteq> i) (timeouts ev),
                           intervals := filter (\<lambda>t. fst t \<noteq> i) (intervals ev)\<rparr>"

text \<open>\<open>close\<close>: the timeout named by \<open>timeoutId\<close> is cleared, no other.\<close>

definition close :: "app_event option \<Rightarrow> ErrorView \<Rightarrow> ErrorView" where
  "close reverseEvent ev =
     (let ev1 = (case reverseEvent of None \<Rightarrow> ev | Some r \<Rightarrow> dispatchEvent r ev);
          ev2 = (case timeoutId ev1 of None \<Rightarrow> ev1 | Some i \<Rightarrow> clearTimeout i ev1)
      in ev2\<lparr>boxDisplayed := False\<rparr>)"

definition show_msg :: "string \<Rightarrow> ErrorView \<Rightarrow> ErrorView" where
  "show_msg m ev =
     add_listener CancelBtn CloseBanner None
       ((new_controller (abort_controller ev))
          \<lparr>errorMsgText := m, ev_msg := m, boxDisplayed := True, retryHidden := True\<rparr>)"

definition startCountdown :: "int \<Rightarrow> ErrorView \<Rightarrow> ErrorView" where
  "startCountdown seconds ev =
     ev\<lparr>intervals := intervals ev @ [(Suc (timerIds ev), seconds)],
        timerIds := Suc (timerIds ev)\<rparr>"

definition showRetriableError :: "app_event \<Rightarrow> string \<Rightarrow> app_event \<Rightarrow> int \<Rightarrow> ErrorView \<Rightarrow> ErrorView" where
  "showRetriableError event m reverseEvent secondsBeforeRetry ev =
     (let ev1 = (new_controller (abort_controller ev))
                  \<lparr>retryHidden := False, cancelHidden := False, errorMsgText := m, ev_msg := m,
                    boxDisplayed := True\<rparr>;
          ev2 = add_listener CancelBtn (AbortClose reverseEvent) (Some (controller ev1)) ev1;
          ev3 = add_listener RetryBtn (Retry event) (Some (controller ev2)) ev2;
          ev4 = ev3\<lparr>timeoutId := Some (Suc (timerIds ev3)),
                    timeouts := timeouts ev3 @ [(Suc (timerIds ev3), event)],
                    timerIds := Suc (timerIds ev3)\<rparr>
      in startCountdown secondsBeforeRetry ev4)"

definition retry :: "app_event \<Rightarrow> ErrorView \<Rightarrow> ErrorView" where
  "retry event ev = close None (abort_controller (dispatchEvent event ev))"

definition abortClose :: "app_event \<Rightarrow> ErrorView \<Rightarrow> ErrorView" where
  "abortClose reverseEvent ev = close (Some reverseEvent) (abort_controller ev)"

text \<open>
  What the browser does: a pending timeout fires once and runs its callback, which is
  \<open>retry\<close> bound to the event of the banner that set it; a click on a button runs the
  listeners registered on that button that are still registered when their turn comes.
\<close>

definition fire_timeout :: "nat \<Rightarrow> ErrorView \<Rightarrow> ErrorView" where
  "fire_timeout i ev =
     (case map_of (timeouts ev) i of
        None \<Rightarrow> ev
      | Some event \<Rightarrow> retry event (ev\<lparr>timeouts := filter (\<lambda>t. fst t \<noteq> i) (timeouts ev)\<rparr>))"

definition run_listener :: "ErrorView \<Rightarrow> Listener \<Rightarrow> ErrorView" where
  "run_listener ev l =
     (if l \<in> set (listeners ev)
      then (case l_action l of
              CloseBanner \<Rightarrow> close None ev
            | AbortClose r \<Rightarrow> abortClose r ev
            | Retry e \<Rightarrow> retry e ev)
      else ev)"

definition click :: "banner_button \<Rightarrow> ErrorView \<Rightarrow> ErrorView" where
  "click b ev = foldl run_listener ev (filter (\<lambda>l. l_button l = b) (listeners ev))"

text \<open>The retry timeouts that are pending.\<close>

definition pending_retries :: "ErrorView \<Rightarrow> app_event list" where
  "pending_retries ev = map snd (timeouts ev)"

section \<open>Notions used to state the properties\<close>

text \<open>
  The active index read as a map from the path of a post to the state of its element.
\<close>

definition active_index :: "View \<Rightarrow> (string \<rightharpoonup> PostElement)" where
  "active_index v = (\<lambda>p. map_option (\<lambda>a. elems v ! a) (activePosts v p))"

text \<open>
  The copy of a post that the first loop of \<open>displayChannelContent\<close> pushes, the posts
  the second loop renders (those without a parent or with an empty one), and the element
  \<open>createNestedPosts\<close> constructs for a post.
\<close>

definition copy_post :: "ViewPost \<Rightarrow> StructuredPost" where
  "copy_post post =
     \<lparr>sp_path = path post, sp_doc = doc post, sp_meta = meta post, sp_children = Some []\<rparr>"

definition is_root :: "StructuredPost \<Rightarrow> bool" where
  "is_root post = (\<not> truthy (parent (sp_doc post)))"

definition element_of :: "string \<Rightarrow> StructuredPost \<Rightarrow> PostElement" where
  "element_of username post =
     new_PostElement (reactions (sp_doc post)) (sp_path post) username
       (meta_createdAt (sp_meta post))"

definition index_step ::
  "string \<Rightarrow> (string \<rightharpoonup> PostElement) \<Rightarrow> StructuredPost \<Rightarrow> (string \<rightharpoonup> PostElement)" where
  "index_step username m post =
     (if is_root post then m(sp_path post \<mapsto> element_of username post) else m)"

text \<open>Every element of the active index exists and has no replies.\<close>

definition idx_ok :: "View \<Rightarrow> bool" where
  "idx_ok v =
     (\<forall>p a. activePosts v p = Some a \<longrightarrow> a < length (elems v) \<and> replies (elems v ! a) = [])"

text \<open>
  Every entry of every child list: the top-level list, then the reply list of each
  element.
\<close>

definition all_children :: "View \<Rightarrow> node list" where
  "all_children v = channelPosts v @ concat (map replies (elems v))"

text \<open>
  An entry of a sibling list is later than a date when it is a post element created strictly after that date.
\<close>

definition later :: "PostElement list \<Rightarrow> int \<Rightarrow> node \<Rightarrow> bool" where
  "later es d n = (case n of PostNode r \<Rightarrow> d < createdAt (es ! r) | ReplyBoxNode b \<Rightarrow> False)"

text \<open>
  The creation dates met when a sibling list is iterated: those of its post elements, in order (a reply box has none).
\<close>

definition node_dates :: "PostElement list \<Rightarrow> node \<Rightarrow> int list" where
  "node_dates es n = (case n of PostNode r \<Rightarrow> [createdAt (es ! r)] | ReplyBoxNode b \<Rightarrow> [])"

definition post_dates :: "PostElement list \<Rightarrow> node list \<Rightarrow> int list" where
  "post_dates es l = concat (map (node_dates es) l)"

text \<open>
  A node put immediately before the first entry that is later than the date, or at the end when there is none: the entries created at the date or before stay in front of it.
\<close>

definition chron_insert :: "PostElement list \<Rightarrow> node \<Rightarrow> int \<Rightarrow> node list \<Rightarrow> node list" where
  "chron_insert es n d l = takeWhile (\<lambda>x. \<not> later es d x) l @ n # dropWhile (\<lambda>x. \<not> later es d x) l"

text \<open>
  The list a post is inserted into: the replies of its parent element, or the top-level list.
\<close>

definition target :: "nat option \<Rightarrow> container" where
  "target parentPost = (case parentPost of None \<Rightarrow> TopLevel | Some p \<Rightarrow> Replies p)"

text \<open>
  The element that owns the list exists.
\<close>

definition container_ok :: "View \<Rightarrow> container \<Rightarrow> bool" where
  "container_ok v c = (case c of TopLevel \<Rightarrow> True | Replies a \<Rightarrow> a < length (elems v))"

text \<open>
  The invariants of the post tree. No node occurs twice in the child lists and every post node is an element that exists (\<open>tree_ok\<close>); the two maps hold elements that exist (\<open>refs_ok\<close>); the creation dates along every sibling list never decrease (\<open>chronological\<close>).
\<close>

definition node_ok :: "View \<Rightarrow> node \<Rightarrow> bool" where
  "node_ok v n = (case n of PostNode a \<Rightarrow> a < length (elems v) | ReplyBoxNode b \<Rightarrow> True)"

definition tree_ok :: "View \<Rightarrow> bool" where
  "tree_ok v = (distinct (all_children v) \<and> list_all (node_ok v) (all_children v))"

definition refs_ok :: "View \<Rightarrow> bool" where
  "refs_ok v = ((\<forall>k a. activePosts v k = Some a \<longrightarrow> a < length (elems v))
                \<and> (\<forall>k a. replyBuffer v k = Some a \<longrightarrow> a < length (elems v)))"

definition chronological :: "View \<Rightarrow> bool" where
  "chronological v = (sorted (post_dates (elems v) (channelPosts v))
       \<and> list_all (\<lambda>e. sorted (post_dates (elems v) (replies e))) (elems v))"

text \<open>
  Two views have the same frame when they differ at most in the child lists.
\<close>

definition strip :: "PostElement \<Rightarrow> PostElement" where
  "strip e = e\<lparr>replies := []\<rparr>"

definition same_frame :: "View \<Rightarrow> View \<Rightarrow> bool" where
  "same_frame v v' =
     (map strip (elems v') = map strip (elems v) \<and> activePosts v' = activePosts v
      \<and> replyBuffer v' = replyBuffer v \<and> activeReply v' = activeReply v
      \<and> activeReplyBox v' = activeReplyBox v \<and> replyBoxes v' = replyBoxes v
      \<and> currChannel v' = currChannel v \<and> postBoxVisible v' = postBoxVisible v)"

definition view_ok :: "View \<Rightarrow> bool" where
  "view_ok v = (tree_ok v \<and> refs_ok v \<and> chronological v)"

text \<open>
  What a returning call of \<open>insertPost\<close> into the child list of its target preserves.
\<close>

definition insert_post_spec :: "nat \<Rightarrow> nat option \<Rightarrow> node list \<Rightarrow> View \<Rightarrow> View outcome \<Rightarrow> bool" where
  "insert_post_spec newPost par postList v y =
     (view_ok v \<and> newPost < length (elems v) \<and> container_ok v (target par)
        \<and> postList = container_children (target par) v
      \<longrightarrow> (\<forall>v'. y = Returned v' \<longrightarrow> view_ok v' \<and> same_frame v v'))"

text \<open>
  The parts of \<open>handleUpdate\<close> for a new post: the parent element, whether the post is an orphan, and the closing of reply mode that follows the insertion of an own reply.
\<close>

definition parent_post :: "ViewPost \<Rightarrow> string \<Rightarrow> View \<Rightarrow> nat option" where
  "parent_post post u v =
     (if truthy (parent (doc post))
      then activePosts (new_post_view post u v) (the (parent (doc post))) else None)"

definition close_own_reply :: "ViewPost \<Rightarrow> string \<Rightarrow> View \<Rightarrow> View" where
  "close_own_reply post u v =
     (if truthy (parent (doc post)) \<and> meta_createdBy (meta post) = u
      then replyModeOff (the (parent (doc post))) v else v)"

definition is_orphan :: "ViewPost \<Rightarrow> string \<Rightarrow> View \<Rightarrow> bool" where
  "is_orphan post u v =
     (truthy (parent (doc post))
      \<and> activePosts (new_post_view post u v) (the (parent (doc post))) = None)"

text \<open>
  The view after the post element \<open>x\<close> has been moved into the list \<open>c\<close>: it is taken
  out of the list that holds it and put into \<open>c\<close> in chronological order.
\<close>

definition move_node :: "nat \<Rightarrow> container \<Rightarrow> View \<Rightarrow> View" where
  "move_node x c v =
     set_container_children c
       (chron_insert (elems v) (PostNode x) (createdAt (elems v ! x))
          (removeAll (PostNode x) (container_children c v)))
       (detach (PostNode x) v)"

text \<open>
  The elements that wait in the reply buffer for a path: the element buffered under the path,
  the element buffered under the path of that element, and so on until nothing is buffered.
  The first argument bounds the number of lookups; there is no result when the chain is
  longer.
\<close>

fun buffered_chain :: "nat \<Rightarrow> View \<Rightarrow> string \<Rightarrow> nat list option" where
  "buffered_chain 0 v p = None"
| "buffered_chain (Suc k) v p =
     (case replyBuffer v p of
        None \<Rightarrow> Some []
      | Some b \<Rightarrow> map_option ((#) b) (buffered_chain k v (postId (elems v ! b))))"

text \<open>Every element of the list is among the replies of the element before it.\<close>

fun linked :: "View \<Rightarrow> nat list \<Rightarrow> bool" where
  "linked v (y # b # rest) = (PostNode b \<in> set (replies (elems v ! y)) \<and> linked v (b # rest))"
| "linked v [y] = True"
| "linked v [] = True"

text \<open>
  What a call of \<open>insertPost\<close> for the element \<open>x\<close> establishes when the elements
  \<open>bs\<close> wait for it: the invariants and the frame are kept, \<open>x\<close> is in the list of its
  target, the waiting elements hang below it, and every other node is where it was. The
  list of the target is the list before with \<open>x\<close> put in chronological order and the
  waiting elements taken out; the other lists that receive no element lose \<open>x\<close> and the
  waiting elements and are otherwise as before.
\<close>

definition chain_result ::
  "nat \<Rightarrow> nat option \<Rightarrow> nat list \<Rightarrow> View \<Rightarrow> View \<Rightarrow> bool" where
  "chain_result x par bs v v' =
     (view_ok v' \<and> same_frame v v'
      \<and> PostNode x \<in> set (container_children (target par) v')
      \<and> linked v' (x # bs)
      \<and> (\<forall>c m. container_ok v c \<and> m \<notin> PostNode ` set (x # bs)
            \<longrightarrow> (m \<in> set (container_children c v')) = (m \<in> set (container_children c v)))
      \<and> container_children (target par) v'
          = filter (\<lambda>m. m \<notin> PostNode ` set bs)
              (chron_insert (elems v) (PostNode x) (createdAt (elems v ! x))
                 (removeAll (PostNode x) (container_children (target par) v)))
      \<and> (\<forall>c. container_ok v c \<and> c \<noteq> target par \<and> c \<notin> Replies ` set (x # bs)
            \<longrightarrow> container_children c v'
                = filter (\<lambda>m. m \<notin> PostNode ` set (x # bs)) (container_children c v)))"

text \<open>A sibling list without the reply box that is open in the view, if one is.\<close>

definition without_reply_box :: "View \<Rightarrow> node list \<Rightarrow> node list" where
  "without_reply_box v l =
     (case activeReplyBox v of None \<Rightarrow> l | Some b \<Rightarrow> removeAll (ReplyBoxNode b) l)"

text \<open>
  A post element is displayed when it is in the top-level list or among the replies of an
  element that is displayed. The walk up the parents is bounded as in
  \<open>ancestor_or_self\<close>; \<open>displayed\<close> gives it one step per element.
\<close>

fun attached :: "nat \<Rightarrow> View \<Rightarrow> nat \<Rightarrow> bool" where
  "attached 0 v a = (PostNode a \<in> set (channelPosts v))"
| "attached (Suc k) v a =
     (PostNode a \<in> set (channelPosts v)
      \<or> (case parent_elem v (PostNode a) of None \<Rightarrow> False | Some q \<Rightarrow> attached k v q))"

definition displayed :: "View \<Rightarrow> nat \<Rightarrow> bool" where
  "displayed v a = attached (length (elems v)) v a"

text \<open>
  A sequence of updates in which every post that names a parent names the path of a post
  that is known already or comes earlier in the sequence, and no post names itself.
\<close>

fun parents_first :: "string set \<Rightarrow> ViewPost list \<Rightarrow> bool" where
  "parents_first known [] = True"
| "parents_first known (p # ps) =
     (parent (doc p) \<noteq> Some (path p)
      \<and> (if truthy (parent (doc p)) then the (parent (doc p)) \<in> known else True)
      \<and> parents_first (insert (path p) known) ps)"

section \<open>Example inputs\<close>

definition mk_post :: "string \<Rightarrow> string option \<Rightarrow> int \<Rightarrow> string \<Rightarrow> ViewPost" where
  "mk_post p par t author =
     \<lparr>path = p,
      doc = \<lparr>msg = ''hello'', parent = par, reactions = None, extensions = None\<rparr>,
      meta = \<lparr>meta_createdAt = t, meta_createdBy = author, meta_lastModifiedAt = t,
              meta_lastModifiedBy = author\<rparr>\<rparr>"

definition with_reactions :: "PostReactions \<Rightarrow> ViewPost \<Rightarrow> ViewPost" where
  "with_reactions r post = post\<lparr>doc := (doc post)\<lparr>reactions := Some r\<rparr>\<rparr>"

definition smiles :: "string list \<Rightarrow> PostReactions" where
  "smiles us = \<lparr>r_smile = Some us, r_frown = None, r_like = None, r_celebrate = None\<rparr>"

text \<open>The updates of a list delivered one after the other, stopping at the first throw.\<close>

fun deliver :: "ViewPost list \<Rightarrow> string \<Rightarrow> View \<Rightarrow> View outcome option" where
  "deliver [] username v = Some (Returned v)"
| "deliver (post # ps) username v =
     (case handleUpdate post username v of
        Some (Returned v1) \<Rightarrow> deliver ps username v1
      | r \<Rightarrow> r)"

definition returned :: "View outcome option \<Rightarrow> View" where
  "returned r = (case r of Some (Returned v) \<Rightarrow> v | _ \<Rightarrow> new_View)"

text \<open>The view of user alice after the creation update of the top-level post \<open>p1\<close>.\<close>

definition view_p1 :: View where
  "view_p1 = returned (handleUpdate (mk_post ''p1'' None 0 ''bob'') ''alice'' new_View)"

text \<open>Two retriable failures, of a channel selection and of a post creation.\<close>

definition banner_after_select_failure :: ErrorView where
  "banner_after_select_failure =
     showRetriableError (NamedEvent ''selectChannelEvent'') ''Server not responding''
       (NamedEvent ''refreshWorkspaceEvent'') 10 new_ErrorView"

definition banner_after_second_failure :: ErrorView where
  "banner_after_second_failure =
     showRetriableError (NamedEvent ''createPostEvent'') ''Server not responding''
       (NamedEvent []) 10 banner_after_select_failure"

text \<open>A top-level post and a reply to it, as a channel load receives them.\<close>

definition post_and_reply :: "ViewPost list" where
  "post_and_reply = [mk_post ''p1'' None 0 ''bob'', mk_post ''r1'' (Some ''p1'') 5 ''bob'']"

text \<open>
  A view in which the reply \<open>r2\<close> waits in the reply buffer for its parent \<open>p9\<close> and
  the reply box is open on post \<open>p1\<close>.
\<close>

definition view_with_orphan_and_reply_box :: View where
  "view_with_orphan_and_reply_box =
     (case replyModeOn ''p1''
             (returned (deliver [mk_post ''p1'' None 0 ''bob'',
                                 mk_post ''r2'' (Some ''p9'') 5 ''bob''] ''alice'' new_View)) of
        Returned v \<Rightarrow> v
      | Threw e \<Rightarrow> new_View)"

text \<open>
  Three top-level posts delivered out of order, two top-level posts with the same creation
  date, and two replies delivered before the parent they share.
\<close>

definition out_of_order_posts :: "ViewPost list" where
  "out_of_order_posts =
     [mk_post ''p1'' None 0 ''bob'', mk_post ''p3'' None 20 ''bob'', mk_post ''p2'' None 10 ''bob'']"

definition same_date_posts :: "ViewPost list" where
  "same_date_posts = [mk_post ''a'' None 5 ''bob'', mk_post ''b'' None 5 ''carol'']"

definition orphans_then_parent :: "ViewPost list" where
  "orphans_then_parent =
     [mk_post ''r1'' (Some ''p1'') 5 ''bob'', mk_post ''r2'' (Some ''p1'') 6 ''carol'',
      mk_post ''p1'' None 0 ''bob'']"

text \<open>
  An update for the path of \<open>p1\<close> that names a parent no post has; the view after the
  reply \<open>r1\<close> arrived before its parent \<open>p1\<close>, the two updates of that scenario and
  the view after both; the view in which \<open>p0\<close> is displayed and the reply \<open>r2\<close> waits
  for its parent \<open>r1\<close>, and the update of \<open>r1\<close> as a reply to \<open>p0\<close>; the view in
  which \<open>r2\<close> waits for \<open>r1\<close> and \<open>r1\<close> waits for \<open>p1\<close>.
\<close>

definition p1_with_unknown_parent :: ViewPost where
  "p1_with_unknown_parent = mk_post ''p1'' (Some ''zz'') 0 ''bob''"

definition view_orphan_r1 :: View where
  "view_orphan_r1 = returned (handleUpdate (mk_post ''r1'' (Some ''p1'') 5 ''bob'') ''alice'' new_View)"

definition orphan_then_parent :: "ViewPost list" where
  "orphan_then_parent = [mk_post ''r1'' (Some ''p1'') 5 ''bob'', mk_post ''p1'' None 0 ''bob'']"

definition view_released_r1 :: View where
  "view_released_r1 = returned (deliver orphan_then_parent ''alice'' new_View)"

definition view_p0_orphan_r2 :: View where
  "view_p0_orphan_r2 =
     returned (deliver [mk_post ''p0'' None 0 ''bob'', mk_post ''r2'' (Some ''r1'') 9 ''bob'']
                 ''alice'' new_View)"

definition r1_under_p0 :: ViewPost where
  "r1_under_p0 = mk_post ''r1'' (Some ''p0'') 5 ''bob''"

definition view_nested_orphans :: View where
  "view_nested_orphans =
     returned (deliver [mk_post ''r2'' (Some ''r1'') 9 ''bob'', mk_post ''r1'' (Some ''p1'') 5 ''bob'']
                 ''alice'' new_View)"

text \<open>
  A post with two replies delivered out of order and an older post delivered last; the view
  after the post and its later reply; that view with the reply box open on the post; a reply
  created between the two, a reply created at the date of the later one, and a reply of the
  current user; the view after two replies arrived before their parent.
\<close>

definition replies_out_of_order :: "ViewPost list" where
  "replies_out_of_order =
     [mk_post ''p1'' None 0 ''bob'', mk_post ''r2'' (Some ''p1'') 20 ''bob'',
      mk_post ''r1'' (Some ''p1'') 10 ''carol'', mk_post ''p0'' None (- 5) ''bob'']"

definition view_p1_r2 :: View where
  "view_p1_r2 = returned (deliver (take 2 replies_out_of_order) ''alice'' new_View)"

definition view_replying :: View where
  "view_replying =
     (case replyModeOn ''p1'' view_p1_r2 of Returned v \<Rightarrow> v | Threw e \<Rightarrow> new_View)"

definition r1_late :: ViewPost where
  "r1_late = mk_post ''r1'' (Some ''p1'') 10 ''carol''"

definition r3_same_date :: ViewPost where
  "r3_same_date = mk_post ''r3'' (Some ''p1'') 20 ''carol''"

definition r4_own :: ViewPost where
  "r4_own = mk_post ''r4'' (Some ''p1'') 30 ''alice''"

definition view_lost_r1 :: View where
  "view_lost_r1 = returned (deliver orphans_then_parent ''alice'' new_View)"

section \<open>Name validation\<close>

lemma submit_rejected_dispatches_nothing:
  "spec_name_rejected (inputValue it) \<Longrightarrow> snd (submit ev it) = []"
  by (auto simp: submit_def spec_name_rejected_def includes_char_def Let_def)

lemma submit_accepts:
  assumes "is_submit_event ev" and "\<not> itemDisabled it" and "\<not> spec_name_rejected (inputValue it)"
  shows "snd (submit ev it) =
           [CreateEvent (itemType it)
              (if itemType it = Workspace then inputValue it else parentName it)
              (if itemType it = Workspace then [] else inputValue it)
              (datasetId it)]"
    and "errorDisplay (fst (submit ev it)) = []"
    and "itemDisabled (fst (submit ev it))"
  using assms
  by (auto simp: submit_def spec_name_rejected_def includes_char_def Let_def is_submit_event_def
      removeError_def disableItem_def)

lemma submit_rejects:
  assumes "is_submit_event ev" and "\<not> itemDisabled it" and "spec_name_rejected (inputValue it)"
  shows "errorShown (fst (submit ev it))"
    and "errorDisplay (fst (submit ev it)) =
           (if inputValue it = [] then ''Empty input'' else invalid_character_msg)"
  using assms
  by (auto simp: submit_def spec_name_rejected_def includes_char_def Let_def is_submit_event_def
      showError_def)

lemma submit_disabled:
  "is_submit_event ev \<Longrightarrow> itemDisabled it \<Longrightarrow> submit ev it = (it, [])"
  by (auto simp: submit_def is_submit_event_def)

text \<open>
  Claim C8. On a submit event (the Enter key in the input, or a click on the confirm
  button) of an item that is not already disabled, the handler rejects exactly the names
  that are empty, equal to \<open>.\<close> or \<open>..\<close>, or contain a slash, a backslash or a double
  quote. A rejected name shows an inline error and dispatches nothing: the text
  \<open>Empty input\<close> for the empty name and, for every other rejected name, so for the name
  \<open>/\<close>, the text \<open>Contains invalid character. Cannot contain\<close> followed by the slash,
  the dot, the double quote and the backslash, each between apostrophes, separated by
  commas and the word \<open>or\<close> (written out below character by character: 0x27 is the
  apostrophe, 0x22 the double quote, 0x5C the backslash). An accepted name dispatches
  exactly one create event of the item's type, carrying the name, and disables the item; a
  submit event on a disabled item, one that was submitted already, changes nothing and
  dispatches nothing. Whatever the event and the item, a rejected name is never dispatched.
\<close>

theorem submit_validates_name:
  "(spec_name_rejected (inputValue it) \<longrightarrow> snd (submit ev it) = [])
   \<and> (is_submit_event ev \<and> \<not> itemDisabled it \<longrightarrow>
        (if spec_name_rejected (inputValue it)
         then snd (submit ev it) = []
              \<and> errorShown (fst (submit ev it))
              \<and> errorDisplay (fst (submit ev it)) =
                    (if inputValue it = [] then ''Empty input''
                     else (''Contains invalid character. Cannot contain ''
                          @ [CHR 0x27, CHR ''/'', CHR 0x27] @ '', ''
                          @ [CHR 0x27, CHR ''.'', CHR 0x27] @ '', ''
                          @ [CHR 0x27, CHR 0x22, CHR 0x27] @ '' or ''
                          @ [CHR 0x27, CHR 0x5C, CHR 0x27]))
         else snd (submit ev it) =
                [CreateEvent (itemType it)
                   (if itemType it = Workspace then inputValue it else parentName it)
                   (if itemType it = Workspace then [] else inputValue it)
                   (datasetId it)]
              \<and> errorDisplay (fst (submit ev it)) = []
              \<and> itemDisabled (fst (submit ev it))))
   \<and> (is_submit_event ev \<and> itemDisabled it \<longrightarrow> submit ev it = (it, []))"
  using submit_rejected_dispatches_nothing [of it ev] submit_accepts [of ev it]
    submit_rejects [of ev it] submit_disabled [of ev it]
  by (simp add: invalid_character_msg_def quoted_def apostrophe_def dquote_def backslash_def)

theorem submit_validates_name_witness:
  "spec_name_rejected ''/'' \<and> is_submit_event MouseEvent
   \<and> \<not> itemDisabled (example_item ''/'')
   \<and> snd (submit MouseEvent (example_item ''/'')) = []
   \<and> errorShown (fst (submit MouseEvent (example_item ''/'')))
   \<and> errorDisplay (fst (submit MouseEvent (example_item ''/'')))
       = ''Contains invalid character. Cannot contain ''
           @ [CHR 0x27, CHR ''/'', CHR 0x27] @ '', ''
           @ [CHR 0x27, CHR ''.'', CHR 0x27] @ '', ''
           @ [CHR 0x27, CHR 0x22, CHR 0x27] @ '' or ''
           @ [CHR 0x27, CHR 0x5C, CHR 0x27]
   \<and> length (errorDisplay (fst (submit MouseEvent (example_item ''/'')))) = 63
   \<and> errorDisplay (fst (submit MouseEvent (example_item []))) = ''Empty input''
   \<and> \<not> spec_name_rejected ''general''
   \<and> snd (submit (KeyboardEvent ''Enter'') (example_item ''general''))
       = [CreateEvent Workspace ''general'' [] ''uuid-1'']"
  using submit_validates_name [of "example_item ''/''" MouseEvent]
    submit_validates_name [of "example_item ''general''" "KeyboardEvent ''Enter''"]
  by (simp add: spec_name_rejected_def is_submit_event_def example_item_def submit_def
      includes_char_def backslash_def dquote_def showError_def invalid_character_msg_def
      quoted_def apostrophe_def)

section \<open>Reactions\<close>

lemma renderButton_clicked: "clicked (renderButton m b) = m"
  by (simp add: renderButton_def)

lemma renderButton_disabled: "disabled (renderButton m b) = (disabled b \<and> clicked b = m)"
  by (auto simp: renderButton_def)

lemma apply_reactions_cnt:
  "kind_cnt k (apply_reactions r u el) = users_count (kind_users k r)"
  by (cases k) (simp_all add: apply_reactions_def renderReactions_def kind_cnt_def kind_users_def)

lemma apply_reactions_btn:
  "kind_btn k (apply_reactions r u el)
     = renderButton (users_include (kind_users k r) u) (kind_btn k el)"
  by (cases k) (simp_all add: apply_reactions_def renderReactions_def kind_btn_def kind_users_def)

lemma apply_reactions_rest:
  "postId (apply_reactions r u el) = postId el"
  "createdAt (apply_reactions r u el) = createdAt el"
  "replies (apply_reactions r u el) = replies el"
  "replyMode (apply_reactions r u el) = replyMode el"
  by (simp_all add: apply_reactions_def renderReactions_def)




lemmas view_eval =
  mk_post_def with_reactions_def smiles_def returned_def view_p1_def handleUpdate_def
  new_post_view_def new_View_def truthy_def new_PostElement_def insertPost.simps place_post_def
  find_insertHere_def scan_step_def before_earliest_def displayPost_def addReply_def
  insert_beforebegin_def parent_container_def parent_elem_def pre_insert_def hierarchy_ok_def
  detach_def container_children_def set_container_children_def initial_button_def
  initial_count_def replyModeOff_def close_elem_def remove_reply_box_def closeReplyMode_def
  updateReactions_def apply_reactions_def renderReactions_def renderButton_def
  users_count_def users_include_def click_reaction_def react_def kind_btn_def kind_cnt_def
  kind_users_def button_id_def Let_def

text \<open>
  Claim C5. A reaction merge is what \<open>handleUpdate\<close> does with an update that carries
  reactions for a path of \<open>activePosts\<close>: it is \<open>updateReactions\<close>, which changes the
  element of the post and nothing else. For each of the four kinds, the displayed count
  becomes the size of the kind's array (0 when the kind is absent) and the displayed
  membership becomes whether the current user is in the array. A control that is pending
  (disabled) and whose displayed membership differs from the server's is enabled again;
  in every other case the disabled state is left as it was.
\<close>

theorem updateReactions_merges:
  assumes "activePosts v pid = Some a" and "a < length (elems v)"
  shows "(path post = pid \<and> reactions (doc post) = Some r
            \<longrightarrow> handleUpdate post user v = Some (Returned (updateReactions r pid user v)))
    \<and> updateReactions r pid user v
         = v\<lparr>elems := (elems v)[a := elems (updateReactions r pid user v) ! a]\<rparr>
    \<and> postId (elems (updateReactions r pid user v) ! a) = postId (elems v ! a)
    \<and> replies (elems (updateReactions r pid user v) ! a) = replies (elems v ! a)
    \<and> (\<forall>k. kind_cnt k (elems (updateReactions r pid user v) ! a)
              = (case kind_users k r of None \<Rightarrow> 0 | Some us \<Rightarrow> length us)
           \<and> clicked (kind_btn k (elems (updateReactions r pid user v) ! a))
              = (case kind_users k r of None \<Rightarrow> False | Some us \<Rightarrow> user \<in> set us)
           \<and> disabled (kind_btn k (elems (updateReactions r pid user v) ! a))
              = (if disabled (kind_btn k (elems v ! a))
                    \<and> clicked (kind_btn k (elems v ! a))
                        \<noteq> (case kind_users k r of None \<Rightarrow> False | Some us \<Rightarrow> user \<in> set us)
                 then False else disabled (kind_btn k (elems v ! a))))"
proof -
  have h: "path post = pid \<and> reactions (doc post) = Some r
            \<longrightarrow> handleUpdate post user v = Some (Returned (updateReactions r pid user v))"
    using assms by (simp add: handleUpdate_def)
  have rest: "updateReactions r pid user v
         = v\<lparr>elems := (elems v)[a := elems (updateReactions r pid user v) ! a]\<rparr>
    \<and> postId (elems (updateReactions r pid user v) ! a) = postId (elems v ! a)
    \<and> replies (elems (updateReactions r pid user v) ! a) = replies (elems v ! a)
    \<and> (\<forall>k. kind_cnt k (elems (updateReactions r pid user v) ! a)
              = (case kind_users k r of None \<Rightarrow> 0 | Some us \<Rightarrow> length us)
           \<and> clicked (kind_btn k (elems (updateReactions r pid user v) ! a))
              = (case kind_users k r of None \<Rightarrow> False | Some us \<Rightarrow> user \<in> set us)
           \<and> disabled (kind_btn k (elems (updateReactions r pid user v) ! a))
              = (if disabled (kind_btn k (elems v ! a))
                    \<and> clicked (kind_btn k (elems v ! a))
                        \<noteq> (case kind_users k r of None \<Rightarrow> False | Some us \<Rightarrow> user \<in> set us)
                 then False else disabled (kind_btn k (elems v ! a))))"
    using assms
    by (auto simp: updateReactions_def apply_reactions_cnt apply_reactions_btn
        apply_reactions_rest renderButton_clicked renderButton_disabled users_count_def
        users_include_def)
  from h rest show ?thesis by blast
qed

theorem updateReactions_merges_witness:
  "activePosts view_p1 ''p1'' = Some 0 \<and> 0 < length (elems view_p1)
   \<and> handleUpdate (with_reactions (smiles [''bob'', ''alice'']) (mk_post ''p1'' None 0 ''bob''))
        ''alice'' (fst (click_reaction Smile 0 view_p1))
      = Some (Returned (updateReactions (smiles [''bob'', ''alice'']) ''p1'' ''alice''
                (fst (click_reaction Smile 0 view_p1))))
   \<and> kind_cnt Smile (elems (updateReactions (smiles [''bob'', ''alice'']) ''p1'' ''alice''
        (fst (click_reaction Smile 0 view_p1))) ! 0) = 2
   \<and> clicked (kind_btn Smile (elems (updateReactions (smiles [''bob'', ''alice'']) ''p1'' ''alice''
        (fst (click_reaction Smile 0 view_p1))) ! 0))
   \<and> disabled (kind_btn Smile (elems (fst (click_reaction Smile 0 view_p1)) ! 0))
   \<and> \<not> disabled (kind_btn Smile (elems (updateReactions (smiles [''bob'', ''alice'']) ''p1''
        ''alice'' (fst (click_reaction Smile 0 view_p1))) ! 0))
   \<and> kind_cnt Frown (elems (updateReactions (smiles [''bob'', ''alice'']) ''p1'' ''alice''
        (fst (click_reaction Smile 0 view_p1))) ! 0) = 0"
  using updateReactions_merges [of "fst (click_reaction Smile 0 view_p1)" "''p1''" 0
      "with_reactions (smiles [''bob'', ''alice'']) (mk_post ''p1'' None 0 ''bob'')"
      "smiles [''bob'', ''alice'']" "''alice''"]
  by (simp add: view_eval)




section \<open>The post tree under updates\<close>

lemma tree_ok_alt:
  "tree_ok v = (distinct (all_children v)
                \<and> (\<forall>a. PostNode a \<in> set (all_children v) \<longrightarrow> a < length (elems v)))"
  unfolding tree_ok_def list_all_iff node_ok_def
  by (auto split: node.splits)

lemma post_dates_simps [simp]:
  "post_dates es [] = []"
  "post_dates es (x # xs) = node_dates es x @ post_dates es xs"
  "post_dates es (xs @ ys) = post_dates es xs @ post_dates es ys"
  by (simp_all add: post_dates_def)

lemma later_dates: "later es d x \<Longrightarrow> \<exists>t. node_dates es x = [t] \<and> d < t"
  by (cases x) (simp_all add: later_def node_dates_def)

lemma not_later_dates: "\<not> later es d x \<Longrightarrow> \<forall>t\<in>set (node_dates es x). t \<le> d"
  by (cases x) (simp_all add: later_def node_dates_def)

lemma scan_keeps:
  "\<forall>t\<in>set (post_dates es l). e \<le> t \<Longrightarrow>
   foldl (scan_step es d) (Some e, Some h) l = (Some e, Some h)"
proof (induction l)
  case Nil
  then show ?case by simp
next
  case (Cons x xs)
  then show ?case
    by (cases x) (auto simp: scan_step_def before_earliest_def node_dates_def Let_def)
qed

lemma scan_sorted:
  "sorted (post_dates es l) \<Longrightarrow>
   foldl (scan_step es d) (None, None) l =
     (case find (later es d) l of None \<Rightarrow> (None, None)
      | Some h \<Rightarrow> (Some (hd (node_dates es h)), Some h))"
proof (induction l)
  case Nil
  then show ?case by simp
next
  case (Cons x xs)
  show ?case
  proof (cases "later es d x")
    case True
    then obtain r where x: "x = PostNode r" and lt: "d < createdAt (es ! r)"
      by (cases x) (simp_all add: later_def)
    from Cons.prems x have "\<forall>t\<in>set (post_dates es xs). createdAt (es ! r) \<le> t"
      by (simp add: node_dates_def sorted_append)
    then have "foldl (scan_step es d) (Some (createdAt (es ! r)), Some x) xs
                 = (Some (createdAt (es ! r)), Some x)"
      by (rule scan_keeps)
    moreover have "scan_step es d (None, None) x = (Some (createdAt (es ! r)), Some x)"
      using x lt by (simp add: scan_step_def before_earliest_def)
    ultimately show ?thesis using True x
      by (simp add: node_dates_def)
  next
    case False
    then have "scan_step es d (None, None) x = (None, None)"
      by (cases x) (simp_all add: scan_step_def later_def Let_def)
    moreover from Cons.prems have "sorted (post_dates es xs)"
      by (simp add: sorted_append)
    ultimately show ?thesis using False Cons.IH by simp
  qed
qed

lemma find_insertHere_sorted:
  "sorted (post_dates es l) \<Longrightarrow> find_insertHere es d l = find (later es d) l"
  by (simp add: find_insertHere_def scan_sorted split: option.split)

lemma insert_before_found:
  "find P l = Some h \<Longrightarrow>
   insert_before n h l = takeWhile (\<lambda>x. \<not> P x) l @ n # dropWhile (\<lambda>x. \<not> P x) l"
proof (induction l)
  case Nil
  then show ?case by simp
next
  case (Cons x xs)
  show ?case
  proof (cases "P x")
    case True
    with Cons.prems show ?thesis by simp
  next
    case False
    with Cons.prems have f: "find P xs = Some h" by simp
    then have "P h" by (auto simp: find_Some_iff)
    with False have "x \<noteq> h" by auto
    with False Cons.IH [OF f] show ?thesis by simp
  qed
qed

lemma not_found_all: "find P l = None \<Longrightarrow> takeWhile (\<lambda>x. \<not> P x) l = l \<and> dropWhile (\<lambda>x. \<not> P x) l = []"
  by (induction l) (auto split: if_splits)

lemma find_removeAll: "\<not> P n \<Longrightarrow> find P (removeAll n l) = find P l"
  by (induction l) auto

lemma post_dates_removeAll_subset: "set (post_dates es (removeAll n l)) \<subseteq> set (post_dates es l)"
  by (induction l) auto

lemma sorted_removeAll: "sorted (post_dates es l) \<Longrightarrow> sorted (post_dates es (removeAll n l))"
proof (induction l)
  case Nil
  then show ?case by simp
next
  case (Cons x xs)
  then have s: "sorted (node_dates es x)" "sorted (post_dates es xs)"
    and le: "\<forall>a\<in>set (node_dates es x). \<forall>b\<in>set (post_dates es xs). a \<le> b"
    by (simp_all add: sorted_append)
  from le post_dates_removeAll_subset [of es n xs]
  have "\<forall>a\<in>set (node_dates es x). \<forall>b\<in>set (post_dates es (removeAll n xs)). a \<le> b"
    by blast
  with s Cons.IH show ?case by (auto simp: sorted_append)
qed

lemma dropWhile_later_dates:
  assumes "sorted (post_dates es l)"
  shows "\<forall>t\<in>set (post_dates es (dropWhile (\<lambda>x. \<not> later es d x) l)). d < t"
  using assms
proof (induction l)
  case Nil
  then show ?case by simp
next
  case (Cons x xs)
  show ?case
  proof (cases "later es d x")
    case True
    then obtain t where t: "node_dates es x = [t]" "d < t" using later_dates by blast
    with Cons.prems have "\<forall>b\<in>set (post_dates es xs). t \<le> b" by (simp add: sorted_append)
    with t True show ?thesis by auto
  next
    case False
    from Cons.prems have "sorted (post_dates es xs)" by (simp add: sorted_append)
    with False Cons.IH show ?thesis by simp
  qed
qed

lemma takeWhile_not_later_dates:
  "\<forall>t\<in>set (post_dates es (takeWhile (\<lambda>x. \<not> later es d x) l)). t \<le> d"
proof (induction l)
  case Nil
  then show ?case by simp
next
  case (Cons x xs)
  then show ?case using not_later_dates [of es d x] by auto
qed

lemma sorted_takeWhile_dates: "sorted (post_dates es l) \<Longrightarrow> sorted (post_dates es (takeWhile P l))"
proof -
  assume s: "sorted (post_dates es l)"
  have "l = takeWhile P l @ dropWhile P l" by simp
  then have "post_dates es l = post_dates es (takeWhile P l) @ post_dates es (dropWhile P l)"
    by (metis post_dates_simps(3))
  with s show ?thesis by (simp add: sorted_append)
qed

lemma sorted_dropWhile_dates: "sorted (post_dates es l) \<Longrightarrow> sorted (post_dates es (dropWhile P l))"
proof -
  assume s: "sorted (post_dates es l)"
  have "l = takeWhile P l @ dropWhile P l" by simp
  then have "post_dates es l = post_dates es (takeWhile P l) @ post_dates es (dropWhile P l)"
    by (metis post_dates_simps(3))
  with s show ?thesis by (simp add: sorted_append)
qed

lemma sorted_chron_insert:
  assumes "sorted (post_dates es l)" and "set (node_dates es n) \<subseteq> {d}"
  shows "sorted (post_dates es (chron_insert es n d l))"
proof -
  have a: "\<forall>t\<in>set (post_dates es (takeWhile (\<lambda>x. \<not> later es d x) l)). t \<le> d"
    by (rule takeWhile_not_later_dates)
  have b: "\<forall>t\<in>set (post_dates es (dropWhile (\<lambda>x. \<not> later es d x) l)). d < t"
    using assms(1) by (rule dropWhile_later_dates)
  have c: "sorted (post_dates es (takeWhile (\<lambda>x. \<not> later es d x) l))"
    using assms(1) by (rule sorted_takeWhile_dates)
  have e: "sorted (post_dates es (dropWhile (\<lambda>x. \<not> later es d x) l))"
    using assms(1) by (rule sorted_dropWhile_dates)
  have n: "sorted (node_dates es n)" by (cases n) (simp_all add: node_dates_def)
  from a b c e n assms(2) show ?thesis
    by (fastforce simp: chron_insert_def sorted_append)
qed

lemma removeAll_concat: "removeAll n (concat xss) = concat (map (removeAll n) xss)"
  by (induction xss) simp_all

lemma all_children_detach: "all_children (detach n v) = removeAll n (all_children v)"
  by (simp add: all_children_def detach_def removeAll_concat comp_def)

lemma detach_fields [simp]:
  "length (elems (detach n v)) = length (elems v)"
  "channelPosts (detach n v) = removeAll n (channelPosts v)"
  "activePosts (detach n v) = activePosts v"
  "replyBuffer (detach n v) = replyBuffer v"
  "activeReply (detach n v) = activeReply v"
  "activeReplyBox (detach n v) = activeReplyBox v"
  "replyBoxes (detach n v) = replyBoxes v"
  "currChannel (detach n v) = currChannel v"
  "postBoxVisible (detach n v) = postBoxVisible v"
  by (simp_all add: detach_def)

lemma nth_detach:
  "a < length (elems v) \<Longrightarrow>
   elems (detach n v) ! a = (elems v ! a)\<lparr>replies := removeAll n (replies (elems v ! a))\<rparr>"
  by (simp add: detach_def)

lemma container_children_detach:
  "container_ok v c \<Longrightarrow> container_children c (detach n v) = removeAll n (container_children c v)"
  by (cases c) (simp_all add: container_children_def container_ok_def nth_detach)

lemma set_container_fields [simp]:
  "length (elems (set_container_children c l v)) = length (elems v)"
  "activePosts (set_container_children c l v) = activePosts v"
  "replyBuffer (set_container_children c l v) = replyBuffer v"
  "activeReply (set_container_children c l v) = activeReply v"
  "activeReplyBox (set_container_children c l v) = activeReplyBox v"
  "replyBoxes (set_container_children c l v) = replyBoxes v"
  "currChannel (set_container_children c l v) = currChannel v"
  "postBoxVisible (set_container_children c l v) = postBoxVisible v"
  by (cases c; simp add: set_container_children_def)+

lemma all_children_split:
  "a < length (elems v) \<Longrightarrow>
   all_children v = channelPosts v @ concat (map replies (take a (elems v)))
                      @ replies (elems v ! a) @ concat (map replies (drop (Suc a) (elems v)))"
proof -
  assume a: "a < length (elems v)"
  have "concat (map replies (elems v))
          = concat (map replies (take a (elems v) @ elems v ! a # drop (Suc a) (elems v)))"
    using id_take_nth_drop [OF a] by simp
  then show ?thesis by (simp add: all_children_def)
qed

lemma all_children_set_replies:
  "a < length (elems v) \<Longrightarrow>
   all_children (set_container_children (Replies a) l v)
     = channelPosts v @ concat (map replies (take a (elems v)))
         @ l @ concat (map replies (drop (Suc a) (elems v)))"
  by (simp add: all_children_def set_container_children_def upd_conv_take_nth_drop)

lemma all_children_set_top:
  "all_children (set_container_children TopLevel l v) = l @ concat (map replies (elems v))"
  by (simp add: all_children_def set_container_children_def)

lemma container_children_subset:
  "container_ok v c \<Longrightarrow> set (container_children c v) \<subseteq> set (all_children v)"
proof (cases c)
  case TopLevel
  then show ?thesis by (simp add: container_children_def all_children_def)
next
  case (Replies a)
  assume "container_ok v c"
  with Replies have a: "a < length (elems v)" by (simp add: container_ok_def)
  show ?thesis using Replies all_children_split [OF a] by (auto simp: container_children_def)
qed

lemma distinct_replace:
  "distinct (X @ l @ Y) \<Longrightarrow> set l' = insert n (set l) \<Longrightarrow> distinct l'
     \<Longrightarrow> n \<notin> set (X @ l @ Y) \<Longrightarrow> distinct (X @ l' @ Y)"
  by auto

text \<open>Replacing the children of a container by a list with one more node.\<close>

lemma all_children_replace:
  assumes c: "container_ok v c"
  shows "\<exists>X Y. all_children v = X @ container_children c v @ Y
               \<and> (\<forall>l. all_children (set_container_children c l v) = X @ l @ Y)"
proof (cases c)
  case TopLevel
  have "all_children v = [] @ container_children c v @ concat (map replies (elems v))"
    using TopLevel by (simp add: all_children_def container_children_def)
  moreover have "\<forall>l. all_children (set_container_children c l v)
                      = [] @ l @ concat (map replies (elems v))"
    using TopLevel by (simp add: all_children_set_top)
  ultimately show ?thesis by blast
next
  case (Replies a)
  with c have a: "a < length (elems v)" by (simp add: container_ok_def)
  have "all_children v = (channelPosts v @ concat (map replies (take a (elems v))))
            @ container_children c v @ concat (map replies (drop (Suc a) (elems v)))"
    using Replies all_children_split [OF a] by (simp add: container_children_def)
  moreover have "\<forall>l. all_children (set_container_children c l v)
          = (channelPosts v @ concat (map replies (take a (elems v))))
              @ l @ concat (map replies (drop (Suc a) (elems v)))"
    using Replies all_children_set_replies [OF a] by simp
  ultimately show ?thesis by blast
qed

lemma tree_ok_set_container:
  assumes t: "tree_ok v" and c: "container_ok v c"
    and n: "n \<notin> set (all_children v)" and nv: "\<forall>a. n = PostNode a \<longrightarrow> a < length (elems v)"
    and s: "set l' = insert n (set (container_children c v))" and d: "distinct l'"
  shows "tree_ok (set_container_children c l' v)"
proof -
  from all_children_replace [OF c] obtain X Y where
    e1: "all_children v = X @ container_children c v @ Y"
    and e2: "all_children (set_container_children c l' v) = X @ l' @ Y"
    by blast
  from t have dist: "distinct (X @ container_children c v @ Y)"
    and val: "\<forall>a. PostNode a \<in> set (X @ container_children c v @ Y) \<longrightarrow> a < length (elems v)"
    unfolding tree_ok_alt e1 by simp_all
  from n have n': "n \<notin> set (X @ container_children c v @ Y)" unfolding e1 .
  have "distinct (X @ l' @ Y)" using dist s d n' by (rule distinct_replace)
  moreover have "set (X @ l' @ Y) = insert n (set (X @ container_children c v @ Y))"
    using s by auto
  ultimately show ?thesis
    unfolding tree_ok_alt e2 using val nv by auto
qed

lemma tree_ok_detach: "tree_ok v \<Longrightarrow> tree_ok (detach n v)"
  by (auto simp: tree_ok_alt all_children_detach distinct_removeAll)

lemma set_insert_before: "set (insert_before n r l) = insert n (set l)"
  by (induction l) auto

lemma distinct_insert_before: "distinct l \<Longrightarrow> n \<notin> set l \<Longrightarrow> distinct (insert_before n r l)"
  by (induction l) (auto simp: set_insert_before)

lemma set_chron_insert: "set (chron_insert es n d l) = insert n (set l)"
proof -
  have "set (takeWhile (\<lambda>x. \<not> later es d x) l) \<union> set (dropWhile (\<lambda>x. \<not> later es d x) l) = set l"
    by (metis set_append takeWhile_dropWhile_id)
  then show ?thesis unfolding chron_insert_def by auto
qed

lemma distinct_chron_insert: "distinct l \<Longrightarrow> n \<notin> set l \<Longrightarrow> distinct (chron_insert es n d l)"
proof -
  assume d: "distinct l" and n: "n \<notin> set l"
  from d have "distinct (takeWhile (\<lambda>x. \<not> later es d x) l)
       \<and> distinct (dropWhile (\<lambda>x. \<not> later es d x) l)
       \<and> set (takeWhile (\<lambda>x. \<not> later es d x) l) \<inter> set (dropWhile (\<lambda>x. \<not> later es d x) l) = {}"
    by (metis distinct_append takeWhile_dropWhile_id)
  moreover from n have "n \<notin> set (takeWhile (\<lambda>x. \<not> later es d x) l)"
    "n \<notin> set (dropWhile (\<lambda>x. \<not> later es d x) l)"
    by (auto dest: set_takeWhileD set_dropWhileD)
  ultimately show ?thesis unfolding chron_insert_def by auto
qed

lemma concat_nth_disjoint_less:
  assumes d: "distinct (concat xss)" and j: "j < length xss" and ij: "i < j"
  shows "set (xss ! i) \<inter> set (xss ! j) = {}"
proof -
  have "concat xss = concat (take j xss @ xss ! j # drop (Suc j) xss)"
    using id_take_nth_drop [OF j] by simp
  with d have "distinct (concat (take j xss) @ xss ! j @ concat (drop (Suc j) xss))" by simp
  then have dis: "set (concat (take j xss)) \<inter> set (xss ! j) = {}" by auto
  have "xss ! i = take j xss ! i" using ij by simp
  moreover have "i < length (take j xss)" using ij j by simp
  ultimately have "xss ! i \<in> set (take j xss)" by (metis nth_mem)
  then have "set (xss ! i) \<subseteq> set (concat (take j xss))" by auto
  with dis show ?thesis by blast
qed

lemma concat_nth_disjoint:
  assumes "distinct (concat xss)" and "i < length xss" and "j < length xss" and "i \<noteq> j"
  shows "set (xss ! i) \<inter> set (xss ! j) = {}"
proof (cases "i < j")
  case True
  with assms show ?thesis by (simp add: concat_nth_disjoint_less)
next
  case False
  with assms have "j < i" by simp
  with assms have "set (xss ! j) \<inter> set (xss ! i) = {}" by (simp add: concat_nth_disjoint_less)
  then show ?thesis by blast
qed

lemma parent_elem_unique:
  assumes t: "tree_ok v" and a: "a < length (elems v)" and n: "n \<in> set (replies (elems v ! a))"
  shows "parent_elem v n = Some a"
proof -
  from t have d: "distinct (concat (map replies (elems v)))"
    by (simp add: tree_ok_alt all_children_def)
  have "\<forall>j<a. n \<notin> set (replies (elems v ! j))"
  proof (intro allI impI)
    fix j assume j: "j < a"
    with a have "set (map replies (elems v) ! j) \<inter> set (map replies (elems v) ! a) = {}"
      using concat_nth_disjoint_less [OF d, of a j] by simp
    with n a j show "n \<notin> set (replies (elems v ! j))" by auto
  qed
  with a n show ?thesis
    unfolding parent_elem_def find_Some_iff
    by (intro exI [of _ a]) simp
qed

lemma parent_container_unique:
  assumes t: "tree_ok v" and c: "container_ok v c" and n: "n \<in> set (container_children c v)"
  shows "parent_container v n = Some c"
proof (cases c)
  case TopLevel
  with n show ?thesis by (simp add: parent_container_def container_children_def)
next
  case (Replies a)
  with c have a: "a < length (elems v)" by (simp add: container_ok_def)
  from n Replies have m: "n \<in> set (replies (elems v ! a))" by (simp add: container_children_def)
  with a have "n \<in> set (concat (map replies (elems v)))" by auto
  moreover from t have "set (channelPosts v) \<inter> set (concat (map replies (elems v))) = {}"
    by (simp add: tree_ok_alt all_children_def)
  ultimately have "n \<notin> set (channelPosts v)" by blast
  with parent_elem_unique [OF t a m] Replies show ?thesis by (simp add: parent_container_def)
qed

lemma not_later_self: "\<not> later es (createdAt (es ! x)) (PostNode x)"
  by (simp add: later_def)

lemma place_post_chron:
  assumes t: "tree_ok v" and c: "container_ok v (target par)"
    and s: "sorted (post_dates (elems v) (container_children (target par) v))"
  shows "place_post newPost par (container_children (target par) v) v =
     (if hierarchy_ok (PostNode newPost) (target par) v
      then Returned (set_container_children (target par)
             (chron_insert (elems v) (PostNode newPost) (createdAt (elems v ! newPost))
                (removeAll (PostNode newPost) (container_children (target par) v)))
             (detach (PostNode newPost) v))
      else Threw HierarchyRequestError)"
proof -
  let ?n = "PostNode newPost" and ?d = "createdAt (elems v ! newPost)"
  let ?l = "container_children (target par) v"
  have fi: "find_insertHere (elems v) ?d ?l = find (later (elems v) ?d) ?l"
    using s by (rule find_insertHere_sorted)
  have nl: "\<not> later (elems v) ?d ?n" by (rule not_later_self)
  have fr: "find (later (elems v) ?d) (removeAll ?n ?l) = find (later (elems v) ?d) ?l"
    using nl by (rule find_removeAll)
  have cd: "container_children (target par) (detach ?n v) = removeAll ?n ?l"
    using c by (rule container_children_detach)
  show ?thesis
  proof (cases "find (later (elems v) ?d) ?l")
    case None
    with fr have "chron_insert (elems v) ?n ?d (removeAll ?n ?l) = removeAll ?n ?l @ [?n]"
      using not_found_all [of "later (elems v) ?d" "removeAll ?n ?l"]
      by (simp add: chron_insert_def)
    moreover have "place_post newPost par ?l v = pre_insert ?n (target par) None v"
      using None fi
      by (cases par) (simp_all add: place_post_def target_def addReply_def displayPost_def)
    ultimately show ?thesis
      by (simp add: pre_insert_def cd Let_def)
  next
    case (Some h)
    then have hl: "h \<in> set ?l" and lh: "later (elems v) ?d h"
      by (auto simp: find_Some_iff)
    from lh nl have hn: "h \<noteq> ?n" by auto
    have pc: "parent_container v h = Some (target par)"
      using t c hl by (rule parent_container_unique)
    from Some fr have "insert_before ?n h (removeAll ?n ?l)
                         = chron_insert (elems v) ?n ?d (removeAll ?n ?l)"
      using insert_before_found [of "later (elems v) ?d" "removeAll ?n ?l" h ?n]
      by (simp add: chron_insert_def)
    moreover have "place_post newPost par ?l v = pre_insert ?n (target par) (Some h) v"
      using Some fi pc by (simp add: place_post_def insert_beforebegin_def)
    ultimately show ?thesis
      using hn by (simp add: pre_insert_def cd Let_def)
  qed
qed

lemma same_frame_refl: "same_frame v v"
  by (simp add: same_frame_def)

lemma same_frame_trans: "same_frame v v1 \<Longrightarrow> same_frame v1 v2 \<Longrightarrow> same_frame v v2"
  by (simp add: same_frame_def)

lemma same_frame_length: "same_frame v v' \<Longrightarrow> length (elems v') = length (elems v)"
  unfolding same_frame_def by (metis length_map)

lemma strip_eq_fields:
  "strip e' = strip e \<Longrightarrow> createdAt e' = createdAt e \<and> postId e' = postId e"
  unfolding strip_def by (metis PostElement.select_convs(1,2) PostElement.surjective PostElement.update_convs(13))

lemma same_frame_nth:
  assumes "same_frame v v'" and "i < length (elems v)"
  shows "createdAt (elems v' ! i) = createdAt (elems v ! i)"
    and "postId (elems v' ! i) = postId (elems v ! i)"
proof -
  from assms have l: "i < length (elems v')" by (simp add: same_frame_length)
  from assms(1) have "map strip (elems v') ! i = map strip (elems v) ! i"
    by (simp add: same_frame_def)
  with l assms(2) have "strip (elems v' ! i) = strip (elems v ! i)" by simp
  then show "createdAt (elems v' ! i) = createdAt (elems v ! i)"
    and "postId (elems v' ! i) = postId (elems v ! i)"
    using strip_eq_fields by blast+
qed

lemma post_dates_cong:
  assumes "\<forall>r. PostNode r \<in> set X \<longrightarrow> createdAt (es' ! r) = createdAt (es ! r)"
  shows "post_dates es' X = post_dates es X"
  using assms
proof (induction X)
  case Nil
  then show ?case by simp
next
  case (Cons x xs)
  then show ?case by (cases x) (simp_all add: node_dates_def)
qed

lemma later_cong:
  "\<forall>r. x = PostNode r \<longrightarrow> createdAt (es' ! r) = createdAt (es ! r) \<Longrightarrow> later es' d x = later es d x"
  by (cases x) (simp_all add: later_def)

lemma same_frame_detach: "same_frame v (detach n v)"
  by (simp add: same_frame_def detach_def strip_def comp_def)

lemma same_frame_set_container: "same_frame v (set_container_children c l v)"
proof (cases c)
  case TopLevel
  then show ?thesis by (simp add: same_frame_def set_container_children_def)
next
  case (Replies a)
  have "map strip ((elems v)[a := (elems v ! a)\<lparr>replies := l\<rparr>]) = map strip (elems v)"
  proof (cases "a < length (elems v)")
    case True
    then have "(map strip (elems v))[a := strip (elems v ! a)] = map strip (elems v)"
      by (metis list_update_id nth_map)
    then show ?thesis by (simp add: map_update strip_def)
  next
    case False
    then have "(elems v)[a := (elems v ! a)\<lparr>replies := l\<rparr>] = elems v"
      by (simp add: list_update_beyond)
    then show ?thesis by simp
  qed
  with Replies show ?thesis by (simp add: same_frame_def set_container_children_def)
qed

lemma chronological_iff:
  "chronological v \<longleftrightarrow>
     (\<forall>c. container_ok v c \<longrightarrow> sorted (post_dates (elems v) (container_children c v)))"
proof
  assume ch: "chronological v"
  show "\<forall>c. container_ok v c \<longrightarrow> sorted (post_dates (elems v) (container_children c v))"
  proof (intro allI impI)
    fix c assume "container_ok v c"
    with ch show "sorted (post_dates (elems v) (container_children c v))"
      by (cases c) (auto simp: chronological_def container_ok_def container_children_def list_all_length)
  qed
next
  assume a: "\<forall>c. container_ok v c \<longrightarrow> sorted (post_dates (elems v) (container_children c v))"
  have "sorted (post_dates (elems v) (channelPosts v))"
    using a [rule_format, of TopLevel] by (simp add: container_ok_def container_children_def)
  moreover have "\<forall>i<length (elems v). sorted (post_dates (elems v) (replies (elems v ! i)))"
  proof (intro allI impI)
    fix i assume "i < length (elems v)"
    then show "sorted (post_dates (elems v) (replies (elems v ! i)))"
      using a [rule_format, of "Replies i"] by (simp add: container_ok_def container_children_def)
  qed
  ultimately show "chronological v" by (simp add: chronological_def list_all_length)
qed

lemma container_children_set:
  "container_ok v c \<Longrightarrow>
   container_children c' (set_container_children c L v) = (if c' = c then L else container_children c' v)"
  by (cases c; cases c')
     (auto simp: container_children_def set_container_children_def container_ok_def)

lemma container_ok_frame: "same_frame v v' \<Longrightarrow> container_ok v' c = container_ok v c"
  by (cases c) (simp_all add: container_ok_def same_frame_length)

lemma distinct_container: "tree_ok v \<Longrightarrow> container_ok v c \<Longrightarrow> distinct (container_children c v)"
proof -
  assume t: "tree_ok v" and c: "container_ok v c"
  from all_children_replace [OF c] obtain X Y where
    "all_children v = X @ container_children c v @ Y" by blast
  with t show ?thesis by (simp add: tree_ok_alt)
qed

lemma container_valid: "tree_ok v \<Longrightarrow> container_ok v c \<Longrightarrow> PostNode r \<in> set (container_children c v)
    \<Longrightarrow> r < length (elems v)"
  using container_children_subset [of v c] by (auto simp: tree_ok_alt)

lemma same_frame_placed:
  "same_frame v (set_container_children c L (detach n v))"
  using same_frame_trans [OF same_frame_detach same_frame_set_container] .

lemma tree_ok_placed:
  assumes t: "tree_ok v" and c: "container_ok v c" and nv: "newPost < length (elems v)"
  shows "tree_ok (set_container_children c
           (chron_insert es (PostNode newPost) d (removeAll (PostNode newPost) (container_children c v)))
           (detach (PostNode newPost) v))"
proof -
  let ?n = "PostNode newPost"
  let ?vd = "detach ?n v"
  have td: "tree_ok ?vd" using t by (rule tree_ok_detach)
  have cd: "container_ok ?vd c" using c by (cases c) (simp_all add: container_ok_def)
  have na: "?n \<notin> set (all_children ?vd)" by (simp add: all_children_detach)
  have nv': "\<forall>a. ?n = PostNode a \<longrightarrow> a < length (elems ?vd)" using nv by simp
  have ch: "container_children c ?vd = removeAll ?n (container_children c v)"
    using c by (rule container_children_detach)
  have s: "set (chron_insert es ?n d (removeAll ?n (container_children c v)))
             = insert ?n (set (container_children c ?vd))"
    by (simp add: set_chron_insert ch)
  have "distinct (container_children c v)" using t c by (rule distinct_container)
  then have d: "distinct (chron_insert es ?n d (removeAll ?n (container_children c v)))"
    by (intro distinct_chron_insert) (simp_all add: distinct_removeAll)
  show ?thesis using td cd na nv' s d by (rule tree_ok_set_container)
qed

lemma chronological_placed:
  assumes t: "tree_ok v" and ch: "chronological v" and c: "container_ok v c"
    and nv: "newPost < length (elems v)"
  shows "chronological (set_container_children c
           (chron_insert (elems v) (PostNode newPost) (createdAt (elems v ! newPost))
              (removeAll (PostNode newPost) (container_children c v)))
           (detach (PostNode newPost) v))"
    (is "chronological ?v1")
proof -
  let ?n = "PostNode newPost" and ?d = "createdAt (elems v ! newPost)"
  let ?L = "chron_insert (elems v) ?n ?d (removeAll ?n (container_children c v))"
  have sf: "same_frame v ?v1" by (rule same_frame_placed)
  have t1: "tree_ok ?v1" using t c nv by (rule tree_ok_placed)
  have cd: "container_ok (detach ?n v) c" using c by (cases c) (simp_all add: container_ok_def)
  have dates: "\<And>X. (\<forall>r. PostNode r \<in> set X \<longrightarrow> r < length (elems v))
                  \<Longrightarrow> post_dates (elems ?v1) X = post_dates (elems v) X"
    using same_frame_nth(1) [OF sf] by (intro post_dates_cong) blast
  show ?thesis
    unfolding chronological_iff
  proof (intro allI impI)
    fix c' assume c': "container_ok ?v1 c'"
    then have c'v: "container_ok v c'" using container_ok_frame [OF sf] by simp
    have c'd: "container_ok (detach ?n v) c'"
      using c'v by (cases c') (simp_all add: container_ok_def)
    have valid: "\<forall>r. PostNode r \<in> set (container_children c' ?v1) \<longrightarrow> r < length (elems v)"
      using container_valid [OF t1 c'] same_frame_length [OF sf] by auto
    have sorted_old: "sorted (post_dates (elems v) (container_children c' v))"
      using ch c'v by (simp add: chronological_iff)
    have "sorted (post_dates (elems v) (container_children c' ?v1))"
    proof (cases "c' = c")
      case True
      then have e: "container_children c' ?v1 = ?L" using cd by (simp add: container_children_set)
      have "sorted (post_dates (elems v) (removeAll ?n (container_children c v)))"
        using sorted_old True by (simp add: sorted_removeAll)
      moreover have "set (node_dates (elems v) ?n) \<subseteq> {?d}" by (simp add: node_dates_def)
      ultimately show ?thesis unfolding e by (rule sorted_chron_insert)
    next
      case False
      then have "container_children c' ?v1 = removeAll ?n (container_children c' v)"
        using cd c'v by (simp add: container_children_set container_children_detach)
      with sorted_old show ?thesis by (simp add: sorted_removeAll)
    qed
    with dates [OF valid] show "sorted (post_dates (elems ?v1) (container_children c' ?v1))"
      by simp
  qed
qed

lemma refs_ok_frame: "same_frame v v' \<Longrightarrow> refs_ok v \<Longrightarrow> refs_ok v'"
  using same_frame_length [of v v'] by (simp add: refs_ok_def same_frame_def)

lemma place_post_ok:
  assumes ok: "view_ok v" and nv: "newPost < length (elems v)"
    and c: "container_ok v (target par)"
    and r: "place_post newPost par (container_children (target par) v) v = Returned v1"
  shows "view_ok v1 \<and> same_frame v v1"
proof -
  from ok have t: "tree_ok v" and rf: "refs_ok v" and ch: "chronological v"
    by (simp_all add: view_ok_def)
  have s: "sorted (post_dates (elems v) (container_children (target par) v))"
    using ch c by (simp add: chronological_iff)
  from r place_post_chron [OF t c s, of newPost]
  have e: "v1 = set_container_children (target par)
             (chron_insert (elems v) (PostNode newPost) (createdAt (elems v ! newPost))
                (removeAll (PostNode newPost) (container_children (target par) v)))
             (detach (PostNode newPost) v)"
    by (simp split: if_splits)
  have sf: "same_frame v v1" unfolding e by (rule same_frame_placed)
  have "tree_ok v1" unfolding e using t c nv by (rule tree_ok_placed)
  moreover have "chronological v1" unfolding e using t ch c nv by (rule chronological_placed)
  moreover have "refs_ok v1" using sf rf by (rule refs_ok_frame)
  ultimately show ?thesis using sf by (simp add: view_ok_def)
qed

lemma insertPost_ok_aux:
  assumes "insertPost newPost par postList v = Some y"
  shows "insert_post_spec newPost par postList v y"
proof (rule insertPost.raw_induct [where P = insert_post_spec, OF _ assms])
  fix ins :: "nat \<Rightarrow> nat option \<Rightarrow> node list \<Rightarrow> View \<Rightarrow> View outcome option"
  fix newPost par postList v y
  assume IH: "\<And>a b c d y'. ins a b c d = Some y' \<Longrightarrow> insert_post_spec a b c d y'"
    and body: "(case place_post newPost par postList v of
                  Returned v1 \<Rightarrow>
                    (case replyBuffer v1 (postId (elems v1 ! newPost)) of
                       None \<Rightarrow> Some (Returned v1)
                     | Some buffered \<Rightarrow>
                         ins buffered (Some newPost) (replies (elems v1 ! newPost)) v1)
                | Threw e \<Rightarrow> Some (Threw e)) = Some y"
  show "insert_post_spec newPost par postList v y"
    unfolding insert_post_spec_def
  proof (intro impI allI)
    fix v'
    assume pre: "view_ok v \<and> newPost < length (elems v) \<and> container_ok v (target par)
                   \<and> postList = container_children (target par) v"
      and y: "y = Returned v'"
    show "view_ok v' \<and> same_frame v v'"
    proof (cases "place_post newPost par postList v")
      case (Threw e)
      with body y show ?thesis by simp
    next
      case (Returned v1)
      with pre have p: "place_post newPost par (container_children (target par) v) v = Returned v1"
        by simp
      from pre have "view_ok v" "newPost < length (elems v)" "container_ok v (target par)"
        by simp_all
      from place_post_ok [OF this p] have ok1: "view_ok v1" and sf1: "same_frame v v1"
        by simp_all
      show ?thesis
      proof (cases "replyBuffer v1 (postId (elems v1 ! newPost))")
        case None
        with body Returned y ok1 sf1 show ?thesis by simp
      next
        case (Some buffered)
        with body Returned
        have call: "ins buffered (Some newPost) (replies (elems v1 ! newPost)) v1 = Some y"
          by simp
        from ok1 Some have b: "buffered < length (elems v1)"
          by (auto simp: view_ok_def refs_ok_def)
        from pre sf1 have n1: "newPost < length (elems v1)" by (simp add: same_frame_length)
        have "view_ok v1 \<and> buffered < length (elems v1) \<and> container_ok v1 (target (Some newPost))
                \<and> replies (elems v1 ! newPost) = container_children (target (Some newPost)) v1"
          using ok1 b n1 by (simp add: target_def container_ok_def container_children_def)
        with IH [OF call] y have "view_ok v' \<and> same_frame v1 v'"
          unfolding insert_post_spec_def by blast
        with sf1 show ?thesis using same_frame_trans by blast
      qed
    qed
  qed
qed

lemma insertPost_ok:
  assumes "insertPost newPost par (container_children (target par) v) v = Some (Returned v')"
    and "view_ok v" and "newPost < length (elems v)" and "container_ok v (target par)"
  shows "view_ok v'" and "same_frame v v'"
  using insertPost_ok_aux [OF assms(1)] assms(2-4) unfolding insert_post_spec_def by simp_all

lemma view_ok_irrelevant [simp]:
  "view_ok (v\<lparr>postBoxVisible := b\<rparr>) = view_ok v"
  "view_ok (v\<lparr>activeReply := r\<rparr>) = view_ok v"
  "view_ok (v\<lparr>activeReplyBox := x\<rparr>) = view_ok v"
  by (simp_all add: view_ok_def tree_ok_alt refs_ok_def chronological_def all_children_def)

lemma view_ok_update_elem:
  assumes ok: "view_ok v" and r: "replies e' = replies (elems v ! a)"
    and d: "createdAt e' = createdAt (elems v ! a)"
  shows "view_ok (v\<lparr>elems := (elems v)[a := e']\<rparr>)"
proof (cases "a < length (elems v)")
  case False
  then have "(elems v)[a := e'] = elems v" by (simp add: list_update_beyond)
  with ok show ?thesis by simp
next
  case True
  let ?v' = "v\<lparr>elems := (elems v)[a := e']\<rparr>"
  have rp: "map replies ((elems v)[a := e']) = map replies (elems v)"
    using True r by (metis list_update_id map_update nth_map)
  have ac: "all_children ?v' = all_children v" by (simp add: all_children_def rp)
  have dt: "\<And>i. createdAt ((elems v)[a := e'] ! i) = createdAt (elems v ! i)"
    using d by (metis list_update_beyond nth_list_update_eq nth_list_update_neq not_le)
  have pd: "\<And>X. post_dates ((elems v)[a := e']) X = post_dates (elems v) X"
    using dt by (intro post_dates_cong) simp
  have cc: "\<And>c. container_children c ?v' = container_children c v"
  proof -
    fix c show "container_children c ?v' = container_children c v"
    proof (cases c)
      case TopLevel
      then show ?thesis by (simp add: container_children_def)
    next
      case (Replies i)
      have "replies ((elems v)[a := e'] ! i) = replies (elems v ! i)"
        using r by (metis list_update_beyond nth_list_update_eq nth_list_update_neq not_le)
      with Replies show ?thesis by (simp add: container_children_def)
    qed
  qed
  have co: "\<And>c. container_ok ?v' c = container_ok v c"
    by (case_tac c) (simp_all add: container_ok_def)
  from ok have "tree_ok ?v'" by (simp add: view_ok_def tree_ok_alt ac)
  moreover from ok have "refs_ok ?v'" by (simp add: view_ok_def refs_ok_def)
  moreover from ok have "chronological ?v'"
    unfolding view_ok_def chronological_iff by (simp add: pd cc co)
  ultimately show ?thesis by (simp add: view_ok_def)
qed

lemma view_ok_updateReactions: "view_ok v \<Longrightarrow> view_ok (updateReactions r pid u v)"
  by (auto simp: updateReactions_def apply_reactions_rest intro: view_ok_update_elem
      split: option.split)

lemma view_ok_close_elem: "view_ok v \<Longrightarrow> view_ok (close_elem a v)"
  by (auto simp: close_elem_def closeReplyMode_def intro: view_ok_update_elem)

lemma view_ok_detach: "view_ok v \<Longrightarrow> view_ok (detach n v)"
proof -
  assume ok: "view_ok v"
  have sf: "same_frame v (detach n v)" by (rule same_frame_detach)
  from ok have t: "tree_ok (detach n v)" by (simp add: view_ok_def tree_ok_detach)
  from ok have r: "refs_ok (detach n v)" using refs_ok_frame [OF sf] by (simp add: view_ok_def)
  have "chronological (detach n v)"
    unfolding chronological_iff
  proof (intro allI impI)
    fix c assume c: "container_ok (detach n v) c"
    then have cv: "container_ok v c" using container_ok_frame [OF sf] by simp
    from ok cv have s: "sorted (post_dates (elems v) (container_children c v))"
      by (simp add: view_ok_def chronological_iff)
    have valid: "\<forall>r. PostNode r \<in> set (container_children c (detach n v))
                   \<longrightarrow> createdAt (elems (detach n v) ! r) = createdAt (elems v ! r)"
      using container_valid [OF t c] same_frame_nth(1) [OF sf] by auto
    have "post_dates (elems (detach n v)) (container_children c (detach n v))
            = post_dates (elems v) (container_children c (detach n v))"
      using valid by (rule post_dates_cong)
    with s cv show "sorted (post_dates (elems (detach n v)) (container_children c (detach n v)))"
      by (simp add: container_children_detach sorted_removeAll)
  qed
  with t r show ?thesis by (simp add: view_ok_def)
qed

lemma view_ok_replyModeOff: "view_ok v \<Longrightarrow> view_ok (replyModeOff pid v)"
  by (auto simp: replyModeOff_def remove_reply_box_def Let_def view_ok_close_elem view_ok_detach
      split: option.split)

lemma replies_new_PostElement [simp]: "replies (new_PostElement r p u d) = []"
  by (simp add: new_PostElement_def)

lemma new_post_view_fields [simp]:
  "length (elems (new_post_view post u v)) = Suc (length (elems v))"
  "channelPosts (new_post_view post u v) = channelPosts v"
  "replyBuffer (new_post_view post u v) = replyBuffer v"
  "activeReply (new_post_view post u v) = activeReply v"
  "activeReplyBox (new_post_view post u v) = activeReplyBox v"
  "replyBoxes (new_post_view post u v) = replyBoxes v"
  "currChannel (new_post_view post u v) = currChannel v"
  "postBoxVisible (new_post_view post u v) = postBoxVisible v"
  "activePosts (new_post_view post u v) = (activePosts v)(path post \<mapsto> length (elems v))"
  by (simp_all add: new_post_view_def)

lemma new_post_view_nth:
  "i < length (elems v) \<Longrightarrow> elems (new_post_view post u v) ! i = elems v ! i"
  "elems (new_post_view post u v) ! length (elems v)
     = new_PostElement (reactions (doc post)) (path post) u (meta_createdAt (meta post))"
  by (simp_all add: new_post_view_def nth_append)

lemma all_children_new_post_view: "all_children (new_post_view post u v) = all_children v"
  by (simp add: all_children_def new_post_view_def)

lemma view_ok_alloc:
  assumes ok: "view_ok v"
  shows "view_ok (new_post_view post u v)"
    (is "view_ok ?v'")
proof -
  from ok have t: "tree_ok v" and rf: "refs_ok v" and ch: "chronological v"
    by (simp_all add: view_ok_def)
  have t': "tree_ok ?v'" using t by (auto simp: tree_ok_alt all_children_new_post_view)
  have rf': "refs_ok ?v'" using rf by (auto simp: refs_ok_def less_Suc_eq)
  have "chronological ?v'"
    unfolding chronological_iff
  proof (intro allI impI)
    fix c assume c: "container_ok ?v' c"
    show "sorted (post_dates (elems ?v') (container_children c ?v'))"
    proof (cases "c = Replies (length (elems v))")
      case True
      then show ?thesis by (simp add: container_children_def new_post_view_nth)
    next
      case False
      with c have cv: "container_ok v c"
        by (cases c) (auto simp: container_ok_def less_Suc_eq)
      then have e: "container_children c ?v' = container_children c v"
        by (cases c) (simp_all add: container_children_def container_ok_def new_post_view_nth)
      have "\<forall>r. PostNode r \<in> set (container_children c v)
                 \<longrightarrow> createdAt (elems ?v' ! r) = createdAt (elems v ! r)"
        using container_valid [OF t cv] by (auto simp: new_post_view_nth)
      then have "post_dates (elems ?v') (container_children c v)
                   = post_dates (elems v) (container_children c v)"
        by (rule post_dates_cong)
      with ch cv e show ?thesis by (simp add: chronological_iff)
    qed
  qed
  with t' rf' show ?thesis by (simp add: view_ok_def)
qed

lemma view_ok_buffer:
  "view_ok v \<Longrightarrow> n < length (elems v) \<Longrightarrow> view_ok (v\<lparr>replyBuffer := (replyBuffer v)(k \<mapsto> n)\<rparr>)"
  by (auto simp: view_ok_def tree_ok_alt refs_ok_def chronological_def all_children_def)

lemma handleUpdate_new_post:
  assumes "\<not> (activePosts v (path post) \<noteq> None \<and> reactions (doc post) \<noteq> None)"
  shows "handleUpdate post u v =
     (if is_orphan post u v
      then Some (Returned ((new_post_view post u v)
                  \<lparr>replyBuffer := (replyBuffer v)(the (parent (doc post)) \<mapsto> length (elems v))\<rparr>))
      else (case insertPost (length (elems v)) (parent_post post u v)
                   (container_children (target (parent_post post u v)) (new_post_view post u v))
                   (new_post_view post u v) of
              None \<Rightarrow> None
            | Some (Threw e) \<Rightarrow> Some (Threw e)
            | Some (Returned v3) \<Rightarrow> Some (Returned (close_own_reply post u v3))))"
proof -
  have pl: "\<And>par w. (case par of Some p \<Rightarrow> replies (elems w ! p) | None \<Rightarrow> channelPosts w)
                = container_children (target par) w"
    by (simp add: target_def container_children_def split: option.split)
  have c: "(activePosts v (path post) \<noteq> None \<and> reactions (doc post) \<noteq> None) = False"
    using assms by simp
  show ?thesis
    unfolding handleUpdate_def c Let_def pl is_orphan_def parent_post_def close_own_reply_def
    by (simp del: new_post_view_fields(9))
qed

lemma handleUpdate_ok:
  assumes ok: "view_ok v" and r: "handleUpdate post u v = Some (Returned v')"
  shows "view_ok v'"
proof (cases "activePosts v (path post) \<noteq> None \<and> reactions (doc post) \<noteq> None")
  case True
  with r ok show ?thesis by (auto simp: handleUpdate_def view_ok_updateReactions)
next
  case False
  note h = handleUpdate_new_post [OF False, of u]
  let ?v2 = "new_post_view post u v"
  have ok2: "view_ok ?v2" using ok by (rule view_ok_alloc)
  show ?thesis
  proof (cases "is_orphan post u v")
    case True
    with r h have "v' = ?v2\<lparr>replyBuffer := (replyBuffer ?v2)(the (parent (doc post)) \<mapsto> length (elems v))\<rparr>"
      by simp
    moreover have "length (elems v) < length (elems ?v2)" by simp
    ultimately show ?thesis using view_ok_buffer [OF ok2] by simp
  next
    case nb: False
    from ok2 have co: "container_ok ?v2 (target (parent_post post u v))"
      by (auto simp: parent_post_def target_def container_ok_def view_ok_def refs_ok_def
          simp del: new_post_view_fields split: option.split)
    from nb r h obtain v3 where
      i: "insertPost (length (elems v)) (parent_post post u v)
            (container_children (target (parent_post post u v)) ?v2) ?v2 = Some (Returned v3)"
      and v': "v' = close_own_reply post u v3"
      by (auto split: option.splits outcome.splits)
    have "view_ok v3" using i ok2 _ co by (rule insertPost_ok) simp
    with v' show ?thesis by (simp add: close_own_reply_def view_ok_replyModeOff)
  qed
qed

lemma deliver_ok: "view_ok v \<Longrightarrow> deliver ps u v = Some (Returned v') \<Longrightarrow> view_ok v'"
proof (induction ps arbitrary: v)
  case Nil
  then show ?case by simp
next
  case (Cons p ps)
  from Cons.prems(2) obtain v1 where h: "handleUpdate p u v = Some (Returned v1)"
    and d: "deliver ps u v1 = Some (Returned v')"
    by (auto split: option.splits outcome.splits)
  from Cons.prems(1) h have "view_ok v1" by (rule handleUpdate_ok)
  then show ?case using d by (rule Cons.IH)
qed

lemma view_ok_new: "view_ok new_View"
  by (simp add: view_ok_def tree_ok_alt refs_ok_def chronological_def new_View_def all_children_def)

lemma parent_elem_Some:
  "parent_elem v m = Some q \<Longrightarrow> q < length (elems v) \<and> m \<in> set (replies (elems v ! q))"
  unfolding parent_elem_def find_Some_iff by auto

lemma ancestor_of_leaf:
  "replies (elems v ! x) = [] \<Longrightarrow> ancestor_or_self k v x a = (x = a)"
proof (induction k arbitrary: a)
  case 0
  then show ?case by simp
next
  case (Suc k)
  show ?case
  proof (cases "parent_elem v (PostNode a)")
    case None
    then show ?thesis by simp
  next
    case (Some q)
    from parent_elem_Some [OF Some] Suc.prems have "x \<noteq> q" by auto
    with Some Suc show ?thesis by simp
  qed
qed

lemma detach_absent: "n \<notin> set (all_children v) \<Longrightarrow> detach n v = v"
proof -
  assume n: "n \<notin> set (all_children v)"
  then have "\<forall>e\<in>set (elems v). n \<notin> set (replies e)" by (auto simp: all_children_def)
  then have "map (\<lambda>e. e\<lparr>replies := removeAll n (replies e)\<rparr>) (elems v) = elems v"
    by (induction "elems v") (simp_all add: map_idI)
  moreover from n have "removeAll n (channelPosts v) = channelPosts v"
    by (simp add: all_children_def)
  ultimately show ?thesis by (simp add: detach_def)
qed

lemmas tree_eval =
  out_of_order_posts_def same_date_posts_def orphans_then_parent_def all_children_def
  target_def container_ok_def chron_insert_def later_def post_dates_def node_dates_def

text \<open>
  Claim C1 does not hold of \<open>handleUpdate\<close>: the reply buffer keeps one element per
  parent path. When the replies \<open>r1\<close> and \<open>r2\<close> arrive before their parent \<open>p1\<close>,
  the second replaces the first in the buffer; once \<open>p1\<close> arrives only \<open>r2\<close> is
  inserted under it. All three posts are in \<open>activePosts\<close>, but the element of \<open>r1\<close>
  is in no child list, so \<open>r1\<close> is not reachable from any root.
\<close>

theorem shared_parent_orphan_is_lost:
  "deliver orphans_then_parent ''alice'' new_View
     = Some (Returned (returned (deliver orphans_then_parent ''alice'' new_View)))
   \<and> map postId (elems (returned (deliver orphans_then_parent ''alice'' new_View)))
       = [''r1'', ''r2'', ''p1'']
   \<and> activePosts (returned (deliver orphans_then_parent ''alice'' new_View)) ''r1'' = Some 0
   \<and> activePosts (returned (deliver orphans_then_parent ''alice'' new_View)) ''r2'' = Some 1
   \<and> activePosts (returned (deliver orphans_then_parent ''alice'' new_View)) ''p1'' = Some 2
   \<and> channelPosts (returned (deliver orphans_then_parent ''alice'' new_View)) = [PostNode 2]
   \<and> map replies (elems (returned (deliver orphans_then_parent ''alice'' new_View)))
       = [[], [], [PostNode 1]]
   \<and> PostNode 0 \<notin> set (all_children (returned (deliver orphans_then_parent ''alice'' new_View)))
   \<and> replyBuffer (returned (deliver orphans_then_parent ''alice'' new_View)) ''p1'' = Some 1"
  by (simp add: view_eval tree_eval)

subsection \<open>A new post and the orphans that wait for it\<close>

lemma postId_new_PostElement [simp]: "postId (new_PostElement r p u d) = p"
  by (simp add: new_PostElement_def)

lemma createdAt_new_PostElement [simp]: "createdAt (new_PostElement r p u d) = d"
  by (simp add: new_PostElement_def)

lemma parent_post_old:
  assumes ok: "view_ok v" and no: "\<not> is_orphan post u v"
    and self: "parent (doc post) \<noteq> Some (path post)"
  shows "container_ok v (target (parent_post post u v))"
    and "parent_post post u v \<noteq> Some (length (elems v))"
    and "parent_post post u v =
           (if truthy (parent (doc post)) then activePosts v (the (parent (doc post))) else None)"
proof -
  have e: "parent_post post u v =
           (if truthy (parent (doc post)) then activePosts v (the (parent (doc post))) else None)"
    using self by (auto simp: parent_post_def truthy_def split: option.splits)
  from ok have r: "\<And>k a. activePosts v k = Some a \<Longrightarrow> a < length (elems v)"
    by (simp add: view_ok_def refs_ok_def)
  show "parent_post post u v =
           (if truthy (parent (doc post)) then activePosts v (the (parent (doc post))) else None)"
    by (rule e)
  show "container_ok v (target (parent_post post u v))"
    unfolding e using r by (auto simp: target_def container_ok_def split: option.split)
  show "parent_post post u v \<noteq> Some (length (elems v))"
    unfolding e using r by (auto split: if_splits)
qed

lemma container_children_new_post_view:
  "container_ok v c \<Longrightarrow> container_children c (new_post_view post u v) = container_children c v"
  by (cases c) (simp_all add: container_children_def container_ok_def new_post_view_nth)

lemma close_elem_fields [simp]:
  "length (elems (close_elem a v)) = length (elems v)"
  "activePosts (close_elem a v) = activePosts v"
  "replyBuffer (close_elem a v) = replyBuffer v"
  "activeReplyBox (close_elem a v) = activeReplyBox v"
  "channelPosts (close_elem a v) = channelPosts v"
  by (simp_all add: close_elem_def)

lemma close_elem_nth:
  "i < length (elems v) \<Longrightarrow> postId (elems (close_elem a v) ! i) = postId (elems v ! i)"
  "i < length (elems v) \<Longrightarrow> replies (elems (close_elem a v) ! i) = replies (elems v ! i)"
  by (cases "i = a"; simp add: close_elem_def closeReplyMode_def)+

lemma replyModeOff_fields [simp]:
  "length (elems (replyModeOff pid v)) = length (elems v)"
  "activePosts (replyModeOff pid v) = activePosts v"
  "replyBuffer (replyModeOff pid v) = replyBuffer v"
  by (simp_all add: replyModeOff_def remove_reply_box_def Let_def split: option.split)

lemma replyModeOff_postId:
  "i < length (elems v) \<Longrightarrow> postId (elems (replyModeOff pid v) ! i) = postId (elems v ! i)"
  by (simp add: replyModeOff_def remove_reply_box_def Let_def nth_detach close_elem_nth
      split: option.split)

lemma container_children_close_elem:
  "container_ok v c \<Longrightarrow> container_children c (close_elem a v) = container_children c v"
  by (cases c) (simp_all add: container_children_def container_ok_def close_elem_nth)

lemma replyModeOff_children:
  assumes c: "container_ok v c"
  shows "container_children c (replyModeOff pid v) = container_children c v
         \<or> (\<exists>b. container_children c (replyModeOff pid v)
                  = removeAll (ReplyBoxNode b) (container_children c v))"
proof -
  let ?v0 = "v\<lparr>postBoxVisible := True\<rparr>"
  have p: "container_ok ?v0 c"
    using c by (cases c) (simp_all add: container_ok_def)
  have q: "container_children c ?v0 = container_children c v"
    by (cases c) (simp_all add: container_children_def)
  have r: "\<And>w. container_children c (w\<lparr>activeReply := None, activeReplyBox := None\<rparr>)
             = container_children c w"
    by (cases c) (simp_all add: container_children_def)
  show ?thesis
  proof (cases "activePosts v pid")
    case None
    then show ?thesis by (simp add: replyModeOff_def Let_def q)
  next
    case (Some t)
    have k: "container_children c (close_elem t ?v0) = container_children c v"
      using container_children_close_elem [OF p] q by simp
    have o: "container_ok (close_elem t ?v0) c"
      using p by (cases c) (simp_all add: container_ok_def)
    show ?thesis
    proof (cases "activeReplyBox v")
      case None
      with Some show ?thesis by (simp add: replyModeOff_def remove_reply_box_def Let_def r k)
    next
      case (Some b)
      have "container_children c (replyModeOff pid v)
              = removeAll (ReplyBoxNode b) (container_children c v)"
        using \<open>activePosts v pid = Some t\<close> Some
        by (simp add: replyModeOff_def remove_reply_box_def Let_def r
            container_children_detach [OF o] k)
      then show ?thesis by blast
    qed
  qed
qed

lemma replyModeOff_children_exact:
  assumes c: "container_ok v c" and t: "activePosts v pid = Some t"
  shows "container_children c (replyModeOff pid v) = without_reply_box v (container_children c v)"
proof -
  let ?v0 = "v\<lparr>postBoxVisible := True\<rparr>"
  have p: "container_ok ?v0 c"
    using c by (cases c) (simp_all add: container_ok_def)
  have q: "container_children c ?v0 = container_children c v"
    by (cases c) (simp_all add: container_children_def)
  have r: "\<And>w. container_children c (w\<lparr>activeReply := None, activeReplyBox := None\<rparr>)
             = container_children c w"
    by (cases c) (simp_all add: container_children_def)
  have k: "container_children c (close_elem t ?v0) = container_children c v"
    using container_children_close_elem [OF p] q by simp
  have o: "container_ok (close_elem t ?v0) c"
    using p by (cases c) (simp_all add: container_ok_def)
  show ?thesis
    using t
    by (simp add: replyModeOff_def remove_reply_box_def Let_def r k without_reply_box_def
        container_children_detach [OF o] split: option.split)
qed

lemma chron_insert_cong:
  assumes a: "\<forall>x\<in>set l. later es' d x = later es d x"
  shows "chron_insert es' n d l = chron_insert es n d l"
proof -
  from a have "takeWhile (\<lambda>x. \<not> later es' d x) l = takeWhile (\<lambda>x. \<not> later es d x) l"
    by (intro takeWhile_cong) simp_all
  moreover from a have "dropWhile (\<lambda>x. \<not> later es' d x) l = dropWhile (\<lambda>x. \<not> later es d x) l"
    by (intro dropWhile_cong) simp_all
  ultimately show ?thesis by (simp add: chron_insert_def)
qed

lemma close_own_reply_fields [simp]:
  "length (elems (close_own_reply post u v)) = length (elems v)"
  "activePosts (close_own_reply post u v) = activePosts v"
  "replyBuffer (close_own_reply post u v) = replyBuffer v"
  by (simp_all add: close_own_reply_def)

lemma close_own_reply_postId:
  "i < length (elems v) \<Longrightarrow> postId (elems (close_own_reply post u v) ! i) = postId (elems v ! i)"
  by (simp add: close_own_reply_def replyModeOff_postId)

lemma close_own_reply_children:
  assumes c: "container_ok v c"
  shows "container_children c (close_own_reply post u v) = container_children c v
         \<or> (\<exists>b. container_children c (close_own_reply post u v)
                  = removeAll (ReplyBoxNode b) (container_children c v))"
  using replyModeOff_children [OF c] by (simp add: close_own_reply_def)

lemma close_own_reply_member:
  "container_ok v c \<Longrightarrow>
   (PostNode a \<in> set (container_children c (close_own_reply post u v)))
     = (PostNode a \<in> set (container_children c v))"
  using close_own_reply_children [of v c post u] by auto

lemma find_snoc: "find P (xs @ [x]) = (case find P xs of None \<Rightarrow> (if P x then Some x else None) | Some y \<Rightarrow> Some y)"
  by (induction xs) auto

lemma move_node_fields [simp]:
  "length (elems (move_node x c v)) = length (elems v)"
  "replyBuffer (move_node x c v) = replyBuffer v"
  "activePosts (move_node x c v) = activePosts v"
  by (simp_all add: move_node_def)

lemma move_node_frame: "same_frame v (move_node x c v)"
  unfolding move_node_def by (rule same_frame_placed)

lemma move_node_children:
  assumes c: "container_ok v c" and c': "container_ok v c'"
  shows "container_children c' (move_node x c v) =
           (if c' = c
            then chron_insert (elems v) (PostNode x) (createdAt (elems v ! x))
                   (removeAll (PostNode x) (container_children c v))
            else removeAll (PostNode x) (container_children c' v))"
proof -
  have cd: "container_ok (detach (PostNode x) v) c"
    using c by (cases c) (simp_all add: container_ok_def)
  show ?thesis
    unfolding move_node_def
    by (simp add: container_children_set [OF cd] container_children_detach [OF c'])
qed

lemma move_node_member:
  assumes c: "container_ok v c" and c': "container_ok v c'"
  shows "(m \<in> set (container_children c' (move_node x c v))) =
           (if m = PostNode x then c' = c else m \<in> set (container_children c' v))"
  by (auto simp: move_node_children [OF c c'] set_chron_insert)

lemma place_post_moves:
  assumes ok: "view_ok v" and c: "container_ok v (target par)"
    and h: "hierarchy_ok (PostNode x) (target par) v"
  shows "place_post x par (container_children (target par) v) v = Returned (move_node x (target par) v)"
proof -
  from ok have t: "tree_ok v" and ch: "chronological v" by (simp_all add: view_ok_def)
  have s: "sorted (post_dates (elems v) (container_children (target par) v))"
    using ch c by (simp add: chronological_iff)
  show ?thesis using place_post_chron [OF t c s, of x] h by (simp add: move_node_def)
qed

lemma move_node_ok:
  assumes ok: "view_ok v" and x: "x < length (elems v)" and c: "container_ok v (target par)"
    and h: "hierarchy_ok (PostNode x) (target par) v"
  shows "view_ok (move_node x (target par) v)"
  using place_post_ok [OF ok x c place_post_moves [OF ok c h]] by simp

lemma parent_elem_move_old:
  assumes c: "container_ok v c" and m: "m \<noteq> PostNode x"
  shows "parent_elem (move_node x c v) m = parent_elem v m"
proof -
  have "find (\<lambda>q. m \<in> set (replies (elems (move_node x c v) ! q))) [0..<length (elems v)]
          = find (\<lambda>q. m \<in> set (replies (elems v ! q))) [0..<length (elems v)]"
  proof (rule find_cong)
    show "[0..<length (elems v)] = [0..<length (elems v)]" by simp
  next
    fix q assume "q \<in> set [0..<length (elems v)]"
    then have q: "container_ok v (Replies q)" by (simp add: container_ok_def)
    show "(m \<in> set (replies (elems (move_node x c v) ! q))) = (m \<in> set (replies (elems v ! q)))"
      using move_node_member [OF c q, of m x] m by (simp add: container_children_def)
  qed
  then show ?thesis by (simp add: parent_elem_def)
qed

lemma parent_elem_top:
  assumes t: "tree_ok v" and n: "n \<in> set (channelPosts v)"
  shows "parent_elem v n = None"
proof -
  from t have "distinct (channelPosts v @ concat (map replies (elems v)))"
    by (simp add: tree_ok_alt all_children_def)
  with n have "n \<notin> set (concat (map replies (elems v)))" by auto
  then have "\<forall>q<length (elems v). n \<notin> set (replies (elems v ! q))" by auto
  then show ?thesis unfolding parent_elem_def find_None_iff by simp
qed

lemma parent_elem_move_new:
  assumes t: "tree_ok (move_node x c v)" and c: "container_ok v c"
  shows "parent_elem (move_node x c v) (PostNode x)
           = (case c of TopLevel \<Rightarrow> None | Replies g \<Rightarrow> Some g)"
proof (cases c)
  case TopLevel
  have "PostNode x \<in> set (container_children TopLevel (move_node x c v))"
    using move_node_member [OF c c, of "PostNode x" x] TopLevel by simp
  then have "PostNode x \<in> set (channelPosts (move_node x c v))"
    by (simp add: container_children_def)
  with TopLevel show ?thesis using parent_elem_top [OF t] by simp
next
  case (Replies g)
  with c have g: "g < length (elems (move_node x c v))" by (simp add: container_ok_def)
  have "PostNode x \<in> set (container_children (Replies g) (move_node x c v))"
    using move_node_member [OF c c, of "PostNode x" x] Replies by simp
  then have "PostNode x \<in> set (replies (elems (move_node x c v) ! g))"
    by (simp add: container_children_def)
  with Replies show ?thesis using parent_elem_unique [OF t g] by simp
qed

lemma ancestor_mono: "ancestor_or_self k v b a \<Longrightarrow> ancestor_or_self (Suc k) v b a"
proof (induction k arbitrary: a)
  case 0
  then show ?case by simp
next
  case (Suc k)
  then show ?case by (cases "parent_elem v (PostNode a)") auto
qed

lemma ancestor_walk_cong:
  assumes pe: "\<And>m. m \<noteq> PostNode x \<Longrightarrow> parent_elem v1 m = parent_elem v m"
  shows "\<not> ancestor_or_self k v x a \<Longrightarrow> ancestor_or_self k v1 b a = ancestor_or_self k v b a"
proof (induction k arbitrary: a)
  case 0
  then show ?case by simp
next
  case (Suc k)
  from Suc.prems have xa: "x \<noteq> a" by auto
  then have e: "parent_elem v1 (PostNode a) = parent_elem v (PostNode a)" by (intro pe) simp
  show ?case
  proof (cases "parent_elem v (PostNode a)")
    case None
    with e show ?thesis by simp
  next
    case (Some q)
    with Suc.prems have "\<not> ancestor_or_self k v x q" by simp
    then have "ancestor_or_self k v1 b q = ancestor_or_self k v b q" by (rule Suc.IH)
    with e Some show ?thesis by simp
  qed
qed

lemma hierarchy_after_move:
  assumes ok: "view_ok v" and x: "x < length (elems v)" and c: "container_ok v (target par)"
    and hx: "hierarchy_ok (PostNode x) (target par) v"
    and hb: "hierarchy_ok (PostNode b) (target par) v" and bx: "b \<noteq> x"
  shows "hierarchy_ok (PostNode b) (Replies x) (move_node x (target par) v)"
proof -
  let ?v1 = "move_node x (target par) v"
  from x obtain k where k: "length (elems v) = Suc k" by (cases "length (elems v)") auto
  have t1: "tree_ok ?v1" using move_node_ok [OF ok x c hx] by (simp add: view_ok_def)
  note pn = parent_elem_move_new [OF t1 c]
  have "\<not> ancestor_or_self (Suc k) ?v1 b x"
  proof (cases par)
    case None
    with pn bx show ?thesis by (simp add: target_def)
  next
    case (Some g)
    from hx Some k have "\<not> ancestor_or_self (Suc k) v x g"
      by (simp add: hierarchy_ok_def target_def)
    then have nx: "\<not> ancestor_or_self k v x g" using ancestor_mono by blast
    from hb Some k have "\<not> ancestor_or_self (Suc k) v b g"
      by (simp add: hierarchy_ok_def target_def)
    then have nb: "\<not> ancestor_or_self k v b g" using ancestor_mono by blast
    have "ancestor_or_self k ?v1 b g = ancestor_or_self k v b g"
      using nx by (rule ancestor_walk_cong [rotated]) (rule parent_elem_move_old [OF c])
    with nb pn Some bx show ?thesis by (simp add: target_def)
  qed
  then show ?thesis by (simp add: hierarchy_ok_def k)
qed

lemma buffered_chain_frame:
  assumes sf: "same_frame v v'" and r: "refs_ok v"
  shows "buffered_chain k v' p = buffered_chain k v p"
proof (induction k arbitrary: p)
  case 0
  then show ?case by simp
next
  case (Suc k)
  from sf have rb: "replyBuffer v' = replyBuffer v" by (simp add: same_frame_def)
  show ?case
  proof (cases "replyBuffer v p")
    case None
    with rb show ?thesis by simp
  next
    case (Some b)
    with r have "b < length (elems v)" by (simp add: refs_ok_def)
    then have "postId (elems v' ! b) = postId (elems v ! b)" using same_frame_nth(2) [OF sf] by simp
    with Some rb Suc.IH show ?thesis by simp
  qed
qed

lemma buffered_chain_valid:
  assumes r: "refs_ok v"
  shows "buffered_chain k v p = Some bs \<Longrightarrow> \<forall>b\<in>set bs. b < length (elems v)"
proof (induction k arbitrary: p bs)
  case 0
  then show ?case by simp
next
  case (Suc k)
  show ?case
  proof (cases "replyBuffer v p")
    case None
    with Suc.prems show ?thesis by simp
  next
    case (Some b)
    with r have b: "b < length (elems v)" by (simp add: refs_ok_def)
    from Suc.prems Some obtain bs' where bs: "bs = b # bs'"
      and ch: "buffered_chain k v (postId (elems v ! b)) = Some bs'" by auto
    from Suc.IH [OF ch] b bs show ?thesis by simp
  qed
qed

lemma ancestor_self: "ancestor_or_self k v a a"
  by (cases k) simp_all

lemma hierarchy_not_self:
  "hierarchy_ok (PostNode b) (target par) v \<Longrightarrow> target par \<noteq> Replies b"
  using ancestor_self [of "length (elems v)" v b]
  by (auto simp: hierarchy_ok_def target_def split: option.splits)

lemma removeAll_as_filter: "removeAll y l = filter (\<lambda>m. m \<notin> {y}) l"
  by (induction l) auto

lemma insertPost_chain:
  "view_ok v \<Longrightarrow> x < length (elems v) \<Longrightarrow> container_ok v (target par)
   \<Longrightarrow> buffered_chain k v (postId (elems v ! x)) = Some bs
   \<Longrightarrow> distinct (x # bs)
   \<Longrightarrow> \<forall>b\<in>set (x # bs). hierarchy_ok (PostNode b) (target par) v
   \<Longrightarrow> \<exists>v'. insertPost x par (container_children (target par) v) v = Some (Returned v')
            \<and> chain_result x par bs v v'"
proof (induction k arbitrary: x par v bs)
  case 0
  then show ?case by simp
next
  case (Suc k)
  note ok = Suc.prems(1) and x = Suc.prems(2) and c = Suc.prems(3) and ch = Suc.prems(4)
    and di = Suc.prems(5) and hi = Suc.prems(6)
  let ?c = "target par"
  let ?v1 = "move_node x ?c v"
  from hi have hx: "hierarchy_ok (PostNode x) ?c v" by simp
  have pl: "place_post x par (container_children ?c v) v = Returned ?v1"
    using place_post_moves [OF ok c hx] .
  have ok1: "view_ok ?v1" using move_node_ok [OF ok x c hx] .
  have sf1: "same_frame v ?v1" by (rule move_node_frame)
  have id1: "postId (elems ?v1 ! x) = postId (elems v ! x)"
    using same_frame_nth(2) [OF sf1 x] .
  from ok have rf: "refs_ok v" by (simp add: view_ok_def)
  have mx: "PostNode x \<in> set (container_children ?c ?v1)"
    using move_node_member [OF c c, of "PostNode x" x] by simp
  have fr1: "\<And>c' m. container_ok v c' \<Longrightarrow> m \<noteq> PostNode x
               \<Longrightarrow> (m \<in> set (container_children c' ?v1)) = (m \<in> set (container_children c' v))"
    using move_node_member [OF c] by simp
  have l1: "container_children ?c ?v1
              = chron_insert (elems v) (PostNode x) (createdAt (elems v ! x))
                  (removeAll (PostNode x) (container_children ?c v))"
    by (simp add: move_node_children [OF c c])
  have o1: "\<And>c'. container_ok v c' \<Longrightarrow> c' \<noteq> ?c
              \<Longrightarrow> container_children c' ?v1 = removeAll (PostNode x) (container_children c' v)"
    by (simp add: move_node_children [OF c])
  have tn: "?c \<notin> Replies ` set (x # bs)"
    using hi hierarchy_not_self [of _ par v] by auto
  show ?case
  proof (cases "replyBuffer v (postId (elems v ! x))")
    case None
    with ch have bs: "bs = []" by simp
    have "insertPost x par (container_children ?c v) v = Some (Returned ?v1)"
      by (subst insertPost.simps) (simp add: pl id1 None)
    moreover have "chain_result x par bs v ?v1"
      unfolding chain_result_def bs using ok1 sf1 mx fr1 l1 o1
      by (simp add: removeAll_as_filter)
    ultimately show ?thesis by blast
  next
    case (Some b)
    with ch obtain bs' where bs: "bs = b # bs'"
      and ch': "buffered_chain k v (postId (elems v ! b)) = Some bs'" by auto
    from rf Some have b: "b < length (elems v)" by (simp add: refs_ok_def)
    then have b1: "b < length (elems ?v1)" by simp
    have cx: "container_ok ?v1 (target (Some x))" using x by (simp add: target_def container_ok_def)
    have idb: "postId (elems ?v1 ! b) = postId (elems v ! b)"
      using same_frame_nth(2) [OF sf1 b] .
    have ch1: "buffered_chain k ?v1 (postId (elems ?v1 ! b)) = Some bs'"
      using buffered_chain_frame [OF sf1 rf] ch' idb by simp
    from di bs have di': "distinct (b # bs')" by simp
    have hi': "\<forall>b'\<in>set (b # bs'). hierarchy_ok (PostNode b') (target (Some x)) ?v1"
    proof
      fix b' assume m: "b' \<in> set (b # bs')"
      with di bs have ne: "b' \<noteq> x" by auto
      from m hi bs have hb: "hierarchy_ok (PostNode b') ?c v" by auto
      show "hierarchy_ok (PostNode b') (target (Some x)) ?v1"
        using hierarchy_after_move [OF ok x c hx hb ne] by (simp add: target_def)
    qed
    from Suc.IH [OF ok1 b1 cx ch1 di' hi']
    obtain v' where r': "insertPost b (Some x) (container_children (target (Some x)) ?v1) ?v1
                           = Some (Returned v')"
      and cr': "chain_result b (Some x) bs' ?v1 v'" by blast
    have "replies (elems ?v1 ! x) = container_children (target (Some x)) ?v1"
      by (simp add: target_def container_children_def)
    then have r: "insertPost x par (container_children ?c v) v = Some (Returned v')"
      using r' by (subst insertPost.simps) (simp add: pl id1 Some)
    from cr' have ok': "view_ok v'" and sf': "same_frame ?v1 v'"
      and mb: "PostNode b \<in> set (container_children (target (Some x)) v')"
      and lk: "linked v' (b # bs')"
      and fr': "\<And>c' m. container_ok ?v1 c' \<Longrightarrow> m \<notin> PostNode ` set (b # bs')
                \<Longrightarrow> (m \<in> set (container_children c' v')) = (m \<in> set (container_children c' ?v1))"
      and fl': "\<And>c'. container_ok ?v1 c' \<Longrightarrow> c' \<noteq> target (Some x)
                \<Longrightarrow> c' \<notin> Replies ` set (b # bs')
                \<Longrightarrow> container_children c' v'
                      = filter (\<lambda>m. m \<notin> PostNode ` set (b # bs')) (container_children c' ?v1)"
      unfolding chain_result_def by blast+
    have c1: "\<And>c'. container_ok v c' \<Longrightarrow> container_ok ?v1 c'"
    proof -
      fix c' show "container_ok v c' \<Longrightarrow> container_ok ?v1 c'"
        by (cases c') (simp_all add: container_ok_def)
    qed
    have xn: "PostNode x \<notin> PostNode ` set (b # bs')" using di bs by auto
    have m': "PostNode x \<in> set (container_children ?c v')"
      using fr' [OF c1 [OF c] xn] mx by simp
    have lk': "linked v' (x # bs)"
      using mb lk bs by (simp add: target_def container_children_def)
    have fr: "\<forall>c' m. container_ok v c' \<and> m \<notin> PostNode ` set (x # bs)
            \<longrightarrow> (m \<in> set (container_children c' v')) = (m \<in> set (container_children c' v))"
    proof (intro allI impI)
      fix c' m assume a: "container_ok v c' \<and> m \<notin> PostNode ` set (x # bs)"
      then have 1: "m \<notin> PostNode ` set (b # bs')" and 2: "m \<noteq> PostNode x" using bs by auto
      from a have 3: "container_ok v c'" by simp
      show "(m \<in> set (container_children c' v')) = (m \<in> set (container_children c' v))"
        using fr' [OF c1 [OF 3] 1] fr1 [OF 3 2] by simp
    qed
    have tx: "?c \<noteq> target (Some x)" and tb: "?c \<notin> Replies ` set (b # bs')"
      using tn bs by (auto simp: target_def)
    have lt: "container_children ?c v'
          = filter (\<lambda>m. m \<notin> PostNode ` set bs)
              (chron_insert (elems v) (PostNode x) (createdAt (elems v ! x))
                 (removeAll (PostNode x) (container_children ?c v)))"
      using fl' [OF c1 [OF c] tx tb] l1 bs by simp
    have lo: "\<forall>c'. container_ok v c' \<and> c' \<noteq> ?c \<and> c' \<notin> Replies ` set (x # bs)
            \<longrightarrow> container_children c' v'
                = filter (\<lambda>m. m \<notin> PostNode ` set (x # bs)) (container_children c' v)"
    proof (intro allI impI)
      fix c' assume a: "container_ok v c' \<and> c' \<noteq> ?c \<and> c' \<notin> Replies ` set (x # bs)"
      then have 1: "container_ok v c'" and 2: "c' \<noteq> ?c"
        and 3: "c' \<noteq> target (Some x)" and 4: "c' \<notin> Replies ` set (b # bs')"
        using bs by (auto simp: target_def)
      have "container_children c' v'
              = filter (\<lambda>m. m \<notin> PostNode ` set (b # bs'))
                  (filter (\<lambda>m. m \<notin> {PostNode x}) (container_children c' v))"
        using fl' [OF c1 [OF 1] 3 4] o1 [OF 1 2] by (simp add: removeAll_as_filter)
      also have "\<dots> = filter (\<lambda>m. m \<notin> PostNode ` set (x # bs)) (container_children c' v)"
        unfolding bs by (auto intro: filter_cong)
      finally show "container_children c' v'
                = filter (\<lambda>m. m \<notin> PostNode ` set (x # bs)) (container_children c' v)" .
    qed
    have "chain_result x par bs v v'"
      unfolding chain_result_def
      using ok' same_frame_trans [OF sf1 sf'] m' lk' fr lt lo by simp
    with r show ?thesis by blast
  qed
qed

lemma buffered_chain_new_post_view:
  assumes r: "refs_ok v"
  shows "buffered_chain k (new_post_view post u v) p = buffered_chain k v p"
proof (induction k arbitrary: p)
  case 0
  then show ?case by simp
next
  case (Suc k)
  show ?case
  proof (cases "replyBuffer v p")
    case None
    then show ?thesis by simp
  next
    case (Some b)
    with r have "b < length (elems v)" by (simp add: refs_ok_def)
    then have "postId (elems (new_post_view post u v) ! b) = postId (elems v ! b)"
      by (simp add: new_post_view_nth)
    with Some Suc.IH show ?thesis by simp
  qed
qed

lemma parent_elem_new_post_view: "parent_elem (new_post_view post u v) m = parent_elem v m"
proof -
  let ?v2 = "new_post_view post u v" and ?n = "length (elems v)"
  have f: "find (\<lambda>q. m \<in> set (replies (elems ?v2 ! q))) [0..<?n]
             = find (\<lambda>q. m \<in> set (replies (elems v ! q))) [0..<?n]"
    by (rule find_cong) (simp_all add: new_post_view_nth)
  have "m \<notin> set (replies (elems ?v2 ! ?n))" by (simp add: new_post_view_nth)
  then show ?thesis by (simp add: parent_elem_def find_snoc f split: option.split)
qed

lemma ancestor_new_post_view:
  "ancestor_or_self k (new_post_view post u v) b a = ancestor_or_self k v b a"
  by (induction k arbitrary: a) (simp_all add: parent_elem_new_post_view split: option.split)

lemma linked_close_own_reply:
  "\<forall>y\<in>set ys. y < length (elems v) \<Longrightarrow> linked (close_own_reply post u v) ys = linked v ys"
proof (induction v ys rule: linked.induct)
  case (1 v y b rest)
  then have c: "container_ok v (Replies y)" by (simp add: container_ok_def)
  have "(PostNode b \<in> set (replies (elems (close_own_reply post u v) ! y)))
          = (PostNode b \<in> set (replies (elems v ! y)))"
    using close_own_reply_member [OF c, of b post u] by (simp add: container_children_def)
  with 1 show ?case by simp
qed simp_all

lemma handleUpdate_chain:
  assumes ok: "view_ok v" and no: "\<not> is_orphan post u v"
    and self: "parent (doc post) \<noteq> Some (path post)"
    and cr: "\<not> (activePosts v (path post) \<noteq> None \<and> reactions (doc post) \<noteq> None)"
    and ch: "buffered_chain k v (path post) = Some bs"
    and di: "distinct bs"
    and ac: "\<forall>b\<in>set bs. \<forall>g. parent_post post u v = Some g
               \<longrightarrow> \<not> ancestor_or_self (Suc (length (elems v))) v b g"
  shows "\<exists>v'. handleUpdate post u v = Some (Returned v')
           \<and> view_ok v'
           \<and> activePosts v' = (activePosts v)(path post \<mapsto> length (elems v))
           \<and> replyBuffer v' = replyBuffer v
           \<and> PostNode (length (elems v)) \<in> set (container_children (target (parent_post post u v)) v')
           \<and> linked v' (length (elems v) # bs)
           \<and> (\<forall>c a. container_ok v c \<and> a \<notin> set bs \<and> a \<noteq> length (elems v)
                 \<longrightarrow> (PostNode a \<in> set (container_children c v'))
                      = (PostNode a \<in> set (container_children c v)))
           \<and> map postId (elems v') = map postId (elems v) @ [path post]
           \<and> container_children (target (parent_post post u v)) v'
               = (if truthy (parent (doc post)) \<and> meta_createdBy (meta post) = u
                  then without_reply_box v
                         (filter (\<lambda>m. m \<notin> PostNode ` set bs)
                            (chron_insert (elems v) (PostNode (length (elems v)))
                               (meta_createdAt (meta post))
                               (container_children (target (parent_post post u v)) v)))
                  else filter (\<lambda>m. m \<notin> PostNode ` set bs)
                         (chron_insert (elems v) (PostNode (length (elems v)))
                            (meta_createdAt (meta post))
                            (container_children (target (parent_post post u v)) v)))"
proof -
  let ?n = "length (elems v)" and ?v2 = "new_post_view post u v"
  let ?par = "parent_post post u v"
  let ?c = "target ?par"
  note pp = parent_post_old [OF ok no self]
  from ok have rf: "refs_ok v" by (simp add: view_ok_def)
  have ok2: "view_ok ?v2" using ok by (rule view_ok_alloc)
  have n2: "?n < length (elems ?v2)" by simp
  have c2: "container_ok ?v2 ?c" using pp(1) by (cases ?c) (simp_all add: container_ok_def)
  have ch2: "buffered_chain k ?v2 (postId (elems ?v2 ! ?n)) = Some bs"
    using ch by (simp add: buffered_chain_new_post_view [OF rf] new_post_view_nth)
  have lt: "\<forall>b\<in>set bs. b < ?n" using buffered_chain_valid [OF rf ch] .
  then have di2: "distinct (?n # bs)" using di by auto
  have hn: "hierarchy_ok (PostNode ?n) ?c ?v2"
  proof (cases ?par)
    case None
    then show ?thesis by (simp add: target_def hierarchy_ok_def)
  next
    case (Some p)
    with pp(2) have "?n \<noteq> p" by auto
    moreover have "replies (elems ?v2 ! ?n) = []" by (simp add: new_post_view_nth)
    ultimately have "\<not> ancestor_or_self (length (elems ?v2)) ?v2 ?n p"
      using ancestor_of_leaf [of ?v2 ?n "length (elems ?v2)" p] by blast
    with Some show ?thesis unfolding target_def hierarchy_ok_def by simp
  qed
  have hb: "\<forall>b\<in>set bs. hierarchy_ok (PostNode b) ?c ?v2"
  proof
    fix b assume b: "b \<in> set bs"
    show "hierarchy_ok (PostNode b) ?c ?v2"
    proof (cases ?par)
      case None
      then show ?thesis by (simp add: target_def hierarchy_ok_def)
    next
      case (Some g)
      with ac b have "\<not> ancestor_or_self (Suc ?n) v b g" by simp
      then have "\<not> ancestor_or_self (Suc ?n) ?v2 b g"
        using ancestor_new_post_view [of "Suc ?n" post u v b g] by blast
      moreover have "length (elems ?v2) = Suc ?n" by simp
      ultimately have "\<not> ancestor_or_self (length (elems ?v2)) ?v2 b g"
        by metis
      with Some show ?thesis unfolding target_def hierarchy_ok_def by simp
    qed
  qed
  from hn hb have h2: "\<forall>b\<in>set (?n # bs). hierarchy_ok (PostNode b) ?c ?v2" by simp
  from insertPost_chain [OF ok2 n2 c2 ch2 di2 h2]
  obtain v3 where r3: "insertPost ?n ?par (container_children ?c ?v2) ?v2 = Some (Returned v3)"
    and cr3: "chain_result ?n ?par bs ?v2 v3" by blast
  from cr3 have ok3: "view_ok v3" and sf3: "same_frame ?v2 v3"
    and m3: "PostNode ?n \<in> set (container_children ?c v3)"
    and l3: "linked v3 (?n # bs)"
    and f3: "\<And>c m. container_ok ?v2 c \<Longrightarrow> m \<notin> PostNode ` set (?n # bs)
               \<Longrightarrow> (m \<in> set (container_children c v3)) = (m \<in> set (container_children c ?v2))"
    unfolding chain_result_def by blast+
  let ?v' = "close_own_reply post u v3"
  have len3: "length (elems v3) = Suc ?n" using same_frame_length [OF sf3] by simp
  have r: "handleUpdate post u v = Some (Returned ?v')"
    using no r3 by (simp add: handleUpdate_new_post [OF cr])
  have ok': "view_ok ?v'" using handleUpdate_ok [OF ok r] .
  have a': "activePosts ?v' = (activePosts v)(path post \<mapsto> ?n)"
    using sf3 by (simp add: same_frame_def)
  have b': "replyBuffer ?v' = replyBuffer v" using sf3 by (simp add: same_frame_def)
  have c3: "\<And>c. container_ok v c \<Longrightarrow> container_ok v3 c"
  proof -
    fix c show "container_ok v c \<Longrightarrow> container_ok v3 c"
      by (cases c) (simp_all add: container_ok_def len3)
  qed
  have c2': "\<And>c. container_ok v c \<Longrightarrow> container_ok ?v2 c"
  proof -
    fix c show "container_ok v c \<Longrightarrow> container_ok ?v2 c"
      by (cases c) (simp_all add: container_ok_def)
  qed
  have m': "PostNode ?n \<in> set (container_children ?c ?v')"
    using m3 by (simp add: close_own_reply_member [OF c3 [OF pp(1)]])
  have l': "linked ?v' (?n # bs)"
    using l3 lt by (subst linked_close_own_reply) (auto simp: len3)
  have f': "\<forall>c a. container_ok v c \<and> a \<notin> set bs \<and> a \<noteq> ?n
                 \<longrightarrow> (PostNode a \<in> set (container_children c ?v'))
                      = (PostNode a \<in> set (container_children c v))"
  proof (intro allI impI)
    fix c a assume h: "container_ok v c \<and> a \<notin> set bs \<and> a \<noteq> ?n"
    then have cv: "container_ok v c" and na: "PostNode a \<notin> PostNode ` set (?n # bs)" by auto
    show "(PostNode a \<in> set (container_children c ?v')) = (PostNode a \<in> set (container_children c v))"
      using f3 [OF c2' [OF cv] na]
      by (simp add: close_own_reply_member [OF c3 [OF cv]] container_children_new_post_view [OF cv])
  qed
  have i': "map postId (elems ?v') = map postId (elems v) @ [path post]"
  proof (rule nth_equalityI)
    show "length (map postId (elems ?v')) = length (map postId (elems v) @ [path post])"
      by (simp add: len3)
  next
    fix i assume "i < length (map postId (elems ?v'))"
    then have i: "i < Suc ?n" by (simp add: len3)
    then have "postId (elems ?v' ! i) = postId (elems ?v2 ! i)"
      using same_frame_nth(2) [OF sf3, of i] by (simp add: close_own_reply_postId len3)
    then show "map postId (elems ?v') ! i = (map postId (elems v) @ [path post]) ! i"
      using i by (cases "i = ?n") (simp_all add: len3 nth_append new_post_view_nth)
  qed
  let ?L = "filter (\<lambda>m. m \<notin> PostNode ` set bs)
              (chron_insert (elems v) (PostNode ?n) (meta_createdAt (meta post))
                 (container_children ?c v))"
  from cr3 have e3: "container_children ?c v3
          = filter (\<lambda>m. m \<notin> PostNode ` set bs)
              (chron_insert (elems ?v2) (PostNode ?n) (createdAt (elems ?v2 ! ?n))
                 (removeAll (PostNode ?n) (container_children ?c ?v2)))"
    unfolding chain_result_def by blast
  have cv: "container_children ?c ?v2 = container_children ?c v"
    using pp(1) by (rule container_children_new_post_view)
  have "PostNode ?n \<notin> set (all_children v)"
    using ok by (auto simp: view_ok_def tree_ok_alt)
  then have "PostNode ?n \<notin> set (container_children ?c v)"
    using container_children_subset [OF pp(1)] by blast
  then have ra: "removeAll (PostNode ?n) (container_children ?c ?v2) = container_children ?c v"
    by (simp add: cv)
  have valid: "\<forall>x\<in>set (container_children ?c v).
                 later (elems ?v2) (meta_createdAt (meta post)) x
                   = later (elems v) (meta_createdAt (meta post)) x"
  proof
    fix x assume x: "x \<in> set (container_children ?c v)"
    from ok have t: "tree_ok v" by (simp add: view_ok_def)
    have "\<forall>r. x = PostNode r \<longrightarrow> createdAt (elems ?v2 ! r) = createdAt (elems v ! r)"
      using container_valid [OF t pp(1)] x by (auto simp: new_post_view_nth)
    then show "later (elems ?v2) (meta_createdAt (meta post)) x
                 = later (elems v) (meta_createdAt (meta post)) x"
      by (rule later_cong)
  qed
  have l3': "container_children ?c v3 = ?L"
    unfolding e3 ra by (simp add: new_post_view_nth chron_insert_cong [OF valid])
  have ab3: "activeReplyBox v3 = activeReplyBox v" using sf3 by (simp add: same_frame_def)
  have ap3: "truthy (parent (doc post)) \<Longrightarrow> activePosts v3 (the (parent (doc post))) \<noteq> None"
    using no sf3 by (simp add: is_orphan_def same_frame_def)
  have x': "container_children ?c ?v'
               = (if truthy (parent (doc post)) \<and> meta_createdBy (meta post) = u
                  then without_reply_box v ?L else ?L)"
  proof (cases "truthy (parent (doc post)) \<and> meta_createdBy (meta post) = u")
    case True
    with ap3 obtain t where t: "activePosts v3 (the (parent (doc post))) = Some t" by auto
    have "container_children ?c (replyModeOff (the (parent (doc post))) v3)
            = without_reply_box v3 (container_children ?c v3)"
      using replyModeOff_children_exact [OF c3 [OF pp(1)] t] .
    also have "\<dots> = without_reply_box v ?L"
      by (simp add: without_reply_box_def ab3 l3')
    finally show ?thesis using True by (simp add: close_own_reply_def)
  next
    case False
    then show ?thesis using l3' by (auto simp: close_own_reply_def)
  qed
  from r ok' a' b' m' l' f' i' x' show ?thesis by blast
qed

lemma dropWhile_first: "dropWhile P l = m # rest \<Longrightarrow> \<not> P m"
  by (induction l) (auto split: if_splits)

lemma chron_insert_position:
  assumes s: "sorted (post_dates es l)"
  shows "\<exists>pre suf. l = pre @ suf \<and> chron_insert es n d l = pre @ n # suf
           \<and> (\<forall>r. PostNode r \<in> set pre \<longrightarrow> createdAt (es ! r) \<le> d)
           \<and> (\<forall>r. PostNode r \<in> set suf \<longrightarrow> d < createdAt (es ! r))
           \<and> (case suf of [] \<Rightarrow> True | m # rest \<Rightarrow> later es d m)"
proof -
  let ?pre = "takeWhile (\<lambda>x. \<not> later es d x) l"
  let ?suf = "dropWhile (\<lambda>x. \<not> later es d x) l"
  have a: "\<forall>r. PostNode r \<in> set ?pre \<longrightarrow> createdAt (es ! r) \<le> d"
  proof (intro allI impI)
    fix r assume "PostNode r \<in> set ?pre"
    then have "\<not> later es d (PostNode r)" using set_takeWhileD by fastforce
    then show "createdAt (es ! r) \<le> d" by (simp add: later_def)
  qed
  have b: "\<forall>r. PostNode r \<in> set ?suf \<longrightarrow> d < createdAt (es ! r)"
  proof (intro allI impI)
    fix r assume m: "PostNode r \<in> set ?suf"
    then have "createdAt (es ! r) \<in> set (post_dates es ?suf)"
      by (auto simp: post_dates_def node_dates_def intro!: bexI [of _ "PostNode r"])
    with dropWhile_later_dates [OF s, of d] show "d < createdAt (es ! r)" by blast
  qed
  have c: "case ?suf of [] \<Rightarrow> True | m # rest \<Rightarrow> later es d m"
  proof (cases ?suf)
    case Nil
    show ?thesis unfolding Nil by simp
  next
    case (Cons m rest)
    from dropWhile_first [OF Cons] have "later es d m" by simp
    then show ?thesis unfolding Cons by simp
  qed
  have "l = ?pre @ ?suf" by simp
  moreover have "chron_insert es n d l = ?pre @ n # ?suf" by (simp add: chron_insert_def)
  ultimately show ?thesis using a b c by blast
qed

lemma attached_top: "PostNode a \<in> set (channelPosts v) \<Longrightarrow> attached k v a"
  by (cases k) simp_all

lemma attached_mono: "attached k v a \<Longrightarrow> attached (Suc k) v a"
proof (induction k arbitrary: a)
  case 0
  then show ?case by simp
next
  case (Suc k)
  then show ?case by (cases "parent_elem v (PostNode a)") auto
qed

lemma attached_kept:
  assumes t: "tree_ok v'" and len: "length (elems v') = Suc (length (elems v))"
    and f: "\<forall>c a. container_ok v c \<and> a \<notin> set bs \<and> a \<noteq> length (elems v)
                 \<longrightarrow> (PostNode a \<in> set (container_children c v'))
                      = (PostNode a \<in> set (container_children c v))"
  shows "a < length (elems v) \<Longrightarrow> \<forall>b\<in>set bs. \<not> ancestor_or_self k v b a
         \<Longrightarrow> attached k v a \<Longrightarrow> attached k v' a"
proof (induction k arbitrary: a)
  case 0
  then have "a \<notin> set bs" by auto
  with 0 f [rule_format, of TopLevel a] show ?case
    by (simp add: container_ok_def container_children_def)
next
  case (Suc k)
  from Suc.prems(2) have nb: "a \<notin> set bs" by auto
  show ?case
  proof (cases "PostNode a \<in> set (channelPosts v)")
    case True
    with nb Suc.prems(1) f [rule_format, of TopLevel a]
    have "PostNode a \<in> set (channelPosts v')"
      by (simp add: container_ok_def container_children_def)
    then show ?thesis by simp
  next
    case False
    with Suc.prems(3) obtain q where q: "parent_elem v (PostNode a) = Some q"
      and aq: "attached k v q" by (auto split: option.splits)
    from q have ql: "q < length (elems v)" and m: "PostNode a \<in> set (replies (elems v ! q))"
      using parent_elem_Some by blast+
    have "PostNode a \<in> set (container_children (Replies q) v')"
      using f [rule_format, of "Replies q" a] nb Suc.prems(1) ql m
      by (simp add: container_ok_def container_children_def)
    then have m': "PostNode a \<in> set (replies (elems v' ! q))"
      by (simp add: container_children_def)
    have "q < length (elems v')" using ql len by simp
    then have pe: "parent_elem v' (PostNode a) = Some q" using parent_elem_unique [OF t _ m'] by simp
    have "\<forall>b\<in>set bs. \<not> ancestor_or_self k v b q" using Suc.prems(2) q by auto
    then have "attached k v' q" using Suc.IH [OF ql _ aq] by simp
    with pe show ?thesis by simp
  qed
qed

lemma updateReactions_fields [simp]:
  "replyBuffer (updateReactions r pid u v) = replyBuffer v"
  "activePosts (updateReactions r pid u v) = activePosts v"
  by (simp_all add: updateReactions_def split: option.split)

lemma deliver_parents_first:
  "view_ok v \<Longrightarrow> replyBuffer v = Map.empty \<Longrightarrow> parents_first (dom (activePosts v)) ps
   \<Longrightarrow> \<exists>w. deliver ps u v = Some (Returned w) \<and> view_ok w \<and> replyBuffer w = Map.empty
            \<and> dom (activePosts w) = dom (activePosts v) \<union> path ` set ps"
proof (induction ps arbitrary: v)
  case Nil
  then show ?case by simp
next
  case (Cons p ps)
  note ok = Cons.prems(1) and rb = Cons.prems(2) and pf = Cons.prems(3)
  from pf have self: "parent (doc p) \<noteq> Some (path p)"
    and kn: "truthy (parent (doc p)) \<Longrightarrow> the (parent (doc p)) \<in> dom (activePosts v)"
    and pf': "parents_first (insert (path p) (dom (activePosts v))) ps"
    by simp_all
  have "\<exists>v1. handleUpdate p u v = Some (Returned v1) \<and> view_ok v1 \<and> replyBuffer v1 = Map.empty
            \<and> dom (activePosts v1) = insert (path p) (dom (activePosts v))"
  proof (cases "activePosts v (path p) \<noteq> None \<and> reactions (doc p) \<noteq> None")
    case True
    let ?v1 = "updateReactions (the (reactions (doc p))) (path p) u v"
    have "handleUpdate p u v = Some (Returned ?v1)" using True by (simp add: handleUpdate_def)
    moreover have "view_ok ?v1" using ok by (rule view_ok_updateReactions)
    moreover have "dom (activePosts ?v1) = insert (path p) (dom (activePosts v))"
      using True by auto
    ultimately show ?thesis using rb by simp
  next
    case False
    have no: "\<not> is_orphan p u v" using kn by (auto simp: is_orphan_def)
    have ch: "buffered_chain (Suc 0) v (path p) = Some []" using rb by simp
    from handleUpdate_chain [OF ok no self False ch]
    obtain v1 where "handleUpdate p u v = Some (Returned v1)" and "view_ok v1"
      and "activePosts v1 = (activePosts v)(path p \<mapsto> length (elems v))"
      and "replyBuffer v1 = replyBuffer v"
      by auto
    then show ?thesis using rb by auto
  qed
  then obtain v1 where h: "handleUpdate p u v = Some (Returned v1)" and ok1: "view_ok v1"
    and rb1: "replyBuffer v1 = Map.empty"
    and d1: "dom (activePosts v1) = insert (path p) (dom (activePosts v))" by blast
  from pf' d1 have pf1: "parents_first (dom (activePosts v1)) ps" by simp
  from Cons.IH [OF ok1 rb1 pf1] obtain w where "deliver ps u v1 = Some (Returned w)"
    and "view_ok w" and "replyBuffer w = Map.empty"
    and "dom (activePosts w) = dom (activePosts v1) \<union> path ` set ps" by blast
  with h d1 show ?case by auto
qed

text \<open>
  Claim C4. The view a \<open>View\<close> starts with satisfies the invariants of the post tree,
  and every update that \<open>handleUpdate\<close> returns from preserves them; so after any sequence
  of updates, iterating any sibling list (the top-level list or the replies of an element)
  yields creation dates that never decrease. The insertion itself: for the creation update
  of a post that has no parent or a parent in \<open>activePosts\<close> other than itself, with the
  elements \<open>bs\<close> waiting for it in the reply buffer, \<open>handleUpdate\<close> returns, and the
  list of the target (the top-level list or the replies of the parent) is the list before
  with the new element put in by \<open>chron_insert\<close>, the waiting elements taken out (they move
  below the new element) and, for a reply of the current user, the open reply box removed.
  On a list with dates that never decrease, \<open>chron_insert\<close> splits the list in two and puts
  the node between: no post element in front is created later than the node, every post
  element behind is created strictly later, and the first entry behind is such an element;
  so the node stands immediately before the first entry created strictly later, at the end
  when there is none, and after the entries with an equal date. A sequence of updates in
  which parents come first is delivered completely, and leaves every sibling list in
  chronological order. The insertion step \<open>place_post\<close> of \<open>insertPost\<close> is described in
  the same way; it throws only when the DOM refuses the move.
\<close>

theorem insertion_keeps_chronological_order:
  "view_ok new_View
   \<and> (view_ok v \<and> handleUpdate post u v = Some (Returned v') \<longrightarrow> view_ok v')
   \<and> (deliver ps u new_View = Some (Returned w) \<longrightarrow> chronological w)
   \<and> (tree_ok v \<and> container_ok v (target par)
        \<and> sorted (post_dates (elems v) (container_children (target par) v))
      \<longrightarrow> place_post newPost par (container_children (target par) v) v =
           (if hierarchy_ok (PostNode newPost) (target par) v
            then Returned (set_container_children (target par)
                   (chron_insert (elems v) (PostNode newPost) (createdAt (elems v ! newPost))
                      (removeAll (PostNode newPost) (container_children (target par) v)))
                   (detach (PostNode newPost) v))
            else Threw HierarchyRequestError)
          \<and> sorted (post_dates (elems v)
                (chron_insert (elems v) (PostNode newPost) (createdAt (elems v ! newPost))
                   (removeAll (PostNode newPost) (container_children (target par) v)))))
   \<and> (view_ok v \<and> \<not> (activePosts v (path post) \<noteq> None \<and> reactions (doc post) \<noteq> None)
        \<and> \<not> is_orphan post u v \<and> parent (doc post) \<noteq> Some (path post)
        \<and> buffered_chain k v (path post) = Some bs \<and> distinct bs
        \<and> (\<forall>b\<in>set bs. \<forall>g. parent_post post u v = Some g
                 \<longrightarrow> \<not> ancestor_or_self (Suc (length (elems v))) v b g)
      \<longrightarrow> (\<exists>v2. handleUpdate post u v = Some (Returned v2)
             \<and> chronological v2
             \<and> container_children (target (parent_post post u v)) v2
                 = (if truthy (parent (doc post)) \<and> meta_createdBy (meta post) = u
                    then without_reply_box v
                           (filter (\<lambda>m. m \<notin> PostNode ` set bs)
                              (chron_insert (elems v) (PostNode (length (elems v)))
                                 (meta_createdAt (meta post))
                                 (container_children (target (parent_post post u v)) v)))
                    else filter (\<lambda>m. m \<notin> PostNode ` set bs)
                           (chron_insert (elems v) (PostNode (length (elems v)))
                              (meta_createdAt (meta post))
                              (container_children (target (parent_post post u v)) v)))))
   \<and> (sorted (post_dates es l)
      \<longrightarrow> (\<exists>pre suf. l = pre @ suf \<and> chron_insert es n d l = pre @ n # suf
             \<and> (\<forall>r. PostNode r \<in> set pre \<longrightarrow> createdAt (es ! r) \<le> d)
             \<and> (\<forall>r. PostNode r \<in> set suf \<longrightarrow> d < createdAt (es ! r))
             \<and> (case suf of [] \<Rightarrow> True | m # rest \<Rightarrow> later es d m)))
   \<and> (view_ok v \<and> replyBuffer v = Map.empty \<and> parents_first (dom (activePosts v)) ps
      \<longrightarrow> (\<exists>w2. deliver ps u v = Some (Returned w2) \<and> chronological w2))"
proof -
  have a: "view_ok v \<and> handleUpdate post u v = Some (Returned v') \<longrightarrow> view_ok v'"
    using handleUpdate_ok by blast
  have b: "deliver ps u new_View = Some (Returned w) \<longrightarrow> chronological w"
    using deliver_ok [OF view_ok_new] by (auto simp: view_ok_def)
  have c: "tree_ok v \<and> container_ok v (target par)
        \<and> sorted (post_dates (elems v) (container_children (target par) v))
      \<longrightarrow> place_post newPost par (container_children (target par) v) v =
           (if hierarchy_ok (PostNode newPost) (target par) v
            then Returned (set_container_children (target par)
                   (chron_insert (elems v) (PostNode newPost) (createdAt (elems v ! newPost))
                      (removeAll (PostNode newPost) (container_children (target par) v)))
                   (detach (PostNode newPost) v))
            else Threw HierarchyRequestError)"
    using place_post_chron by blast
  have d: "sorted (post_dates (elems v) (container_children (target par) v))
      \<longrightarrow> sorted (post_dates (elems v)
                (chron_insert (elems v) (PostNode newPost) (createdAt (elems v ! newPost))
                   (removeAll (PostNode newPost) (container_children (target par) v))))"
    by (auto intro!: sorted_chron_insert sorted_removeAll simp: node_dates_def)
  have e: "view_ok v \<and> \<not> (activePosts v (path post) \<noteq> None \<and> reactions (doc post) \<noteq> None)
        \<and> \<not> is_orphan post u v \<and> parent (doc post) \<noteq> Some (path post)
        \<and> buffered_chain k v (path post) = Some bs \<and> distinct bs
        \<and> (\<forall>b\<in>set bs. \<forall>g. parent_post post u v = Some g
                 \<longrightarrow> \<not> ancestor_or_self (Suc (length (elems v))) v b g)
      \<longrightarrow> (\<exists>v2. handleUpdate post u v = Some (Returned v2)
             \<and> chronological v2
             \<and> container_children (target (parent_post post u v)) v2
                 = (if truthy (parent (doc post)) \<and> meta_createdBy (meta post) = u
                    then without_reply_box v
                           (filter (\<lambda>m. m \<notin> PostNode ` set bs)
                              (chron_insert (elems v) (PostNode (length (elems v)))
                                 (meta_createdAt (meta post))
                                 (container_children (target (parent_post post u v)) v)))
                    else filter (\<lambda>m. m \<notin> PostNode ` set bs)
                           (chron_insert (elems v) (PostNode (length (elems v)))
                              (meta_createdAt (meta post))
                              (container_children (target (parent_post post u v)) v))))"
  proof (intro impI)
    assume h: "view_ok v \<and> \<not> (activePosts v (path post) \<noteq> None \<and> reactions (doc post) \<noteq> None)
        \<and> \<not> is_orphan post u v \<and> parent (doc post) \<noteq> Some (path post)
        \<and> buffered_chain k v (path post) = Some bs \<and> distinct bs
        \<and> (\<forall>b\<in>set bs. \<forall>g. parent_post post u v = Some g
                 \<longrightarrow> \<not> ancestor_or_self (Suc (length (elems v))) v b g)"
    then have ok: "view_ok v"
      and cr: "\<not> (activePosts v (path post) \<noteq> None \<and> reactions (doc post) \<noteq> None)"
      and no: "\<not> is_orphan post u v" and self: "parent (doc post) \<noteq> Some (path post)"
      and ch: "buffered_chain k v (path post) = Some bs" and di: "distinct bs"
      and ac: "\<forall>b\<in>set bs. \<forall>g. parent_post post u v = Some g
                 \<longrightarrow> \<not> ancestor_or_self (Suc (length (elems v))) v b g"
      by simp_all
    from handleUpdate_chain [OF ok no self cr ch di ac]
    obtain v2 where "handleUpdate post u v = Some (Returned v2)" and "view_ok v2"
      and "container_children (target (parent_post post u v)) v2
                 = (if truthy (parent (doc post)) \<and> meta_createdBy (meta post) = u
                    then without_reply_box v
                           (filter (\<lambda>m. m \<notin> PostNode ` set bs)
                              (chron_insert (elems v) (PostNode (length (elems v)))
                                 (meta_createdAt (meta post))
                                 (container_children (target (parent_post post u v)) v)))
                    else filter (\<lambda>m. m \<notin> PostNode ` set bs)
                           (chron_insert (elems v) (PostNode (length (elems v)))
                              (meta_createdAt (meta post))
                              (container_children (target (parent_post post u v)) v)))"
      by blast
    then show "\<exists>v2. handleUpdate post u v = Some (Returned v2)
             \<and> chronological v2
             \<and> container_children (target (parent_post post u v)) v2
                 = (if truthy (parent (doc post)) \<and> meta_createdBy (meta post) = u
                    then without_reply_box v
                           (filter (\<lambda>m. m \<notin> PostNode ` set bs)
                              (chron_insert (elems v) (PostNode (length (elems v)))
                                 (meta_createdAt (meta post))
                                 (container_children (target (parent_post post u v)) v)))
                    else filter (\<lambda>m. m \<notin> PostNode ` set bs)
                           (chron_insert (elems v) (PostNode (length (elems v)))
                              (meta_createdAt (meta post))
                              (container_children (target (parent_post post u v)) v)))"
      by (auto simp: view_ok_def)
  qed
  have f: "sorted (post_dates es l)
      \<longrightarrow> (\<exists>pre suf. l = pre @ suf \<and> chron_insert es n d l = pre @ n # suf
             \<and> (\<forall>r. PostNode r \<in> set pre \<longrightarrow> createdAt (es ! r) \<le> d)
             \<and> (\<forall>r. PostNode r \<in> set suf \<longrightarrow> d < createdAt (es ! r))
             \<and> (case suf of [] \<Rightarrow> True | m # rest \<Rightarrow> later es d m))"
    using chron_insert_position by blast
  have g: "view_ok v \<and> replyBuffer v = Map.empty \<and> parents_first (dom (activePosts v)) ps
      \<longrightarrow> (\<exists>w2. deliver ps u v = Some (Returned w2) \<and> chronological w2)"
  proof (intro impI)
    assume "view_ok v \<and> replyBuffer v = Map.empty \<and> parents_first (dom (activePosts v)) ps"
    then have "view_ok v" and "replyBuffer v = Map.empty"
      and "parents_first (dom (activePosts v)) ps" by simp_all
    from deliver_parents_first [OF this, of u]
    show "\<exists>w2. deliver ps u v = Some (Returned w2) \<and> chronological w2"
      by (auto simp: view_ok_def)
  qed
  from view_ok_new a b c d e f g show ?thesis by blast
qed

theorem insertion_keeps_chronological_order_witness:
  "view_ok view_p1_r2
   \<and> replies (elems view_p1_r2 ! 0) = [PostNode 1]
   \<and> createdAt (elems view_p1_r2 ! 1) = 20
   \<and> parent_post r1_late ''alice'' view_p1_r2 = Some 0
   \<and> handleUpdate r1_late ''alice'' view_p1_r2
        = Some (Returned (returned (handleUpdate r1_late ''alice'' view_p1_r2)))
   \<and> replies (elems (returned (handleUpdate r1_late ''alice'' view_p1_r2)) ! 0)
        = [PostNode 2, PostNode 1]
   \<and> chronological (returned (handleUpdate r1_late ''alice'' view_p1_r2))
   \<and> replies (elems (returned (handleUpdate r3_same_date ''alice'' view_p1_r2)) ! 0)
        = [PostNode 1, PostNode 2]
   \<and> view_ok view_replying
   \<and> replies (elems view_replying ! 0) = [PostNode 1, ReplyBoxNode 0]
   \<and> replies (elems (returned (handleUpdate r4_own ''alice'' view_replying)) ! 0)
        = [PostNode 1, PostNode 2]
   \<and> parents_first {} replies_out_of_order
   \<and> deliver replies_out_of_order ''alice'' new_View
        = Some (Returned (returned (deliver replies_out_of_order ''alice'' new_View)))
   \<and> chronological (returned (deliver replies_out_of_order ''alice'' new_View))
   \<and> map postId (elems (returned (deliver replies_out_of_order ''alice'' new_View)))
        = [''p1'', ''r2'', ''r1'', ''p0'']
   \<and> channelPosts (returned (deliver replies_out_of_order ''alice'' new_View))
        = [PostNode 3, PostNode 0]
   \<and> replies (elems (returned (deliver replies_out_of_order ''alice'' new_View)) ! 0)
        = [PostNode 2, PostNode 1]"
proof -
  let ?v = view_p1_r2 and ?y = view_replying
  note defs = view_p1_r2_def replies_out_of_order_def r1_late_def r3_same_date_def r4_own_def
    view_replying_def replyModeOn_def
  have ok: "view_ok ?v"
    using deliver_ok [OF view_ok_new, of "take 2 replies_out_of_order" "''alice''" ?v]
    by (simp add: view_eval tree_eval defs)
  have oky: "view_ok ?y"
    by (simp add: view_eval tree_eval defs view_ok_def tree_ok_def refs_ok_def
        chronological_def node_ok_def)
  have ev: "replies (elems ?v ! 0) = [PostNode 1] \<and> createdAt (elems ?v ! 1) = 20
            \<and> length (elems ?v) = 2 \<and> parent_post r1_late ''alice'' ?v = Some 0
            \<and> parent_post r3_same_date ''alice'' ?v = Some 0"
    by (simp add: view_eval tree_eval defs parent_post_def new_post_view_def)
  have ey: "replies (elems ?y ! 0) = [PostNode 1, ReplyBoxNode 0] \<and> length (elems ?y) = 2
            \<and> createdAt (elems ?y ! 1) = 20 \<and> activeReplyBox ?y = Some 0
            \<and> parent_post r4_own ''alice'' ?y = Some 0"
    by (simp add: view_eval tree_eval defs parent_post_def new_post_view_def)
  have h1: "\<not> (activePosts ?v (path r1_late) \<noteq> None \<and> reactions (doc r1_late) \<noteq> None)
            \<and> \<not> is_orphan r1_late ''alice'' ?v \<and> parent (doc r1_late) \<noteq> Some (path r1_late)
            \<and> buffered_chain 1 ?v (path r1_late) = Some [] \<and> distinct ([]::nat list)
            \<and> (\<forall>b\<in>set []. \<forall>g. parent_post r1_late ''alice'' ?v = Some g
                 \<longrightarrow> \<not> ancestor_or_self (Suc (length (elems ?v))) ?v b g)"
    by (simp add: view_eval tree_eval defs is_orphan_def new_post_view_def)
  have h3: "\<not> (activePosts ?v (path r3_same_date) \<noteq> None \<and> reactions (doc r3_same_date) \<noteq> None)
            \<and> \<not> is_orphan r3_same_date ''alice'' ?v
            \<and> parent (doc r3_same_date) \<noteq> Some (path r3_same_date)
            \<and> buffered_chain 1 ?v (path r3_same_date) = Some [] \<and> distinct ([]::nat list)
            \<and> (\<forall>b\<in>set []. \<forall>g. parent_post r3_same_date ''alice'' ?v = Some g
                 \<longrightarrow> \<not> ancestor_or_self (Suc (length (elems ?v))) ?v b g)"
    by (simp add: view_eval tree_eval defs is_orphan_def new_post_view_def)
  have h4: "\<not> (activePosts ?y (path r4_own) \<noteq> None \<and> reactions (doc r4_own) \<noteq> None)
            \<and> \<not> is_orphan r4_own ''alice'' ?y \<and> parent (doc r4_own) \<noteq> Some (path r4_own)
            \<and> buffered_chain 1 ?y (path r4_own) = Some [] \<and> distinct ([]::nat list)
            \<and> (\<forall>b\<in>set []. \<forall>g. parent_post r4_own ''alice'' ?y = Some g
                 \<longrightarrow> \<not> ancestor_or_self (Suc (length (elems ?y))) ?y b g)"
    by (simp add: view_eval tree_eval defs is_orphan_def new_post_view_def)
  note t1 = insertion_keeps_chronological_order
    [where v = ?v and post = r1_late and u = "''alice''" and k = 1 and bs = "[]"
       and ps = replies_out_of_order]
  from t1 ok h1 obtain v1 where r1: "handleUpdate r1_late ''alice'' ?v = Some (Returned v1)"
    and c1: "chronological v1"
    and l1: "container_children (target (parent_post r1_late ''alice'' ?v)) v1
               = (if truthy (parent (doc r1_late)) \<and> meta_createdBy (meta r1_late) = ''alice''
                  then without_reply_box ?v
                         (filter (\<lambda>m. m \<notin> PostNode ` set [])
                            (chron_insert (elems ?v) (PostNode (length (elems ?v)))
                               (meta_createdAt (meta r1_late))
                               (container_children (target (parent_post r1_late ''alice'' ?v)) ?v)))
                  else filter (\<lambda>m. m \<notin> PostNode ` set [])
                         (chron_insert (elems ?v) (PostNode (length (elems ?v)))
                            (meta_createdAt (meta r1_late))
                            (container_children (target (parent_post r1_late ''alice'' ?v)) ?v)))"
    by blast
  from r1 have R1: "returned (handleUpdate r1_late ''alice'' ?v) = v1" by (simp add: returned_def)
  from l1 ev have l1': "replies (elems v1 ! 0) = [PostNode 2, PostNode 1]"
    by (simp add: container_children_def target_def chron_insert_def later_def r1_late_def
        mk_post_def truthy_def)
  note t3 = insertion_keeps_chronological_order
    [where v = ?v and post = r3_same_date and u = "''alice''" and k = 1 and bs = "[]"]
  from t3 ok h3 obtain v3 where r3: "handleUpdate r3_same_date ''alice'' ?v = Some (Returned v3)"
    and l3: "container_children (target (parent_post r3_same_date ''alice'' ?v)) v3
               = (if truthy (parent (doc r3_same_date)) \<and> meta_createdBy (meta r3_same_date) = ''alice''
                  then without_reply_box ?v
                         (filter (\<lambda>m. m \<notin> PostNode ` set [])
                            (chron_insert (elems ?v) (PostNode (length (elems ?v)))
                               (meta_createdAt (meta r3_same_date))
                               (container_children (target (parent_post r3_same_date ''alice'' ?v)) ?v)))
                  else filter (\<lambda>m. m \<notin> PostNode ` set [])
                         (chron_insert (elems ?v) (PostNode (length (elems ?v)))
                            (meta_createdAt (meta r3_same_date))
                            (container_children (target (parent_post r3_same_date ''alice'' ?v)) ?v)))"
    by blast
  from r3 have R3: "returned (handleUpdate r3_same_date ''alice'' ?v) = v3"
    by (simp add: returned_def)
  from l3 ev have l3': "replies (elems v3 ! 0) = [PostNode 1, PostNode 2]"
    by (simp add: container_children_def target_def chron_insert_def later_def r3_same_date_def
        mk_post_def truthy_def)
  note t4 = insertion_keeps_chronological_order
    [where v = ?y and post = r4_own and u = "''alice''" and k = 1 and bs = "[]"]
  from t4 oky h4 obtain v4 where r4: "handleUpdate r4_own ''alice'' ?y = Some (Returned v4)"
    and l4: "container_children (target (parent_post r4_own ''alice'' ?y)) v4
               = (if truthy (parent (doc r4_own)) \<and> meta_createdBy (meta r4_own) = ''alice''
                  then without_reply_box ?y
                         (filter (\<lambda>m. m \<notin> PostNode ` set [])
                            (chron_insert (elems ?y) (PostNode (length (elems ?y)))
                               (meta_createdAt (meta r4_own))
                               (container_children (target (parent_post r4_own ''alice'' ?y)) ?y)))
                  else filter (\<lambda>m. m \<notin> PostNode ` set [])
                         (chron_insert (elems ?y) (PostNode (length (elems ?y)))
                            (meta_createdAt (meta r4_own))
                            (container_children (target (parent_post r4_own ''alice'' ?y)) ?y)))"
    by blast
  from r4 have R4: "returned (handleUpdate r4_own ''alice'' ?y) = v4" by (simp add: returned_def)
  from l4 ey have l4': "replies (elems v4 ! 0) = [PostNode 1, PostNode 2]"
    by (simp add: container_children_def target_def chron_insert_def later_def r4_own_def
        mk_post_def truthy_def without_reply_box_def)
  have pf: "parents_first {} replies_out_of_order"
    by (simp add: replies_out_of_order_def mk_post_def truthy_def)
  have nv: "replyBuffer new_View = Map.empty \<and> dom (activePosts new_View) = {}"
    by (simp add: new_View_def)
  note t5 = insertion_keeps_chronological_order
    [where v = new_View and ps = replies_out_of_order and u = "''alice''"]
  from t5 have s5: "view_ok new_View \<and> replyBuffer new_View = Map.empty
        \<and> parents_first (dom (activePosts new_View)) replies_out_of_order
      \<longrightarrow> (\<exists>w2. deliver replies_out_of_order ''alice'' new_View = Some (Returned w2)
             \<and> chronological w2)"
    by blast
  have pf': "parents_first (dom (activePosts new_View)) replies_out_of_order"
    using pf nv by simp
  from s5 view_ok_new nv pf'
  obtain w2 where r5: "deliver replies_out_of_order ''alice'' new_View = Some (Returned w2)"
    and c5: "chronological w2" by blast
  from r5 have R5: "returned (deliver replies_out_of_order ''alice'' new_View) = w2"
    by (simp add: returned_def)
  have e5: "map postId (elems (returned (deliver replies_out_of_order ''alice'' new_View)))
        = [''p1'', ''r2'', ''r1'', ''p0'']
   \<and> channelPosts (returned (deliver replies_out_of_order ''alice'' new_View))
        = [PostNode 3, PostNode 0]
   \<and> replies (elems (returned (deliver replies_out_of_order ''alice'' new_View)) ! 0)
        = [PostNode 2, PostNode 1]"
    by (simp add: view_eval tree_eval defs)
  from ok ev r1 R1 l1' c1 R3 l3' oky ey R4 l4' pf r5 R5 c5 e5 show ?thesis by simp
qed

text \<open>
  Claim C3, as the specification states it, fails in its last part. The reply \<open>r1\<close>
  arrives before its parent \<open>p1\<close> and is put in the reply buffer under \<open>p1\<close>; when
  \<open>p1\<close> arrives, \<open>r1\<close> becomes the only reply of \<open>p1\<close>, and the reply buffer
  still holds the element of \<open>r1\<close> under \<open>p1\<close>.
\<close>

theorem released_orphan_stays_in_buffer:
  "deliver orphan_then_parent ''alice'' new_View
     = Some (Returned (returned (deliver orphan_then_parent ''alice'' new_View)))
   \<and> map postId (elems (returned (deliver orphan_then_parent ''alice'' new_View)))
       = [''r1'', ''p1'']
   \<and> channelPosts (returned (deliver orphan_then_parent ''alice'' new_View)) = [PostNode 1]
   \<and> map replies (elems (returned (deliver orphan_then_parent ''alice'' new_View)))
       = [[], [PostNode 0]]
   \<and> replyBuffer (returned (deliver orphan_then_parent ''alice'' new_View)) ''p1'' = Some 0"
  by (simp add: view_eval tree_eval orphan_then_parent_def)

text \<open>
  Claim C3, amended. A creation update that names a parent which is not in
  \<open>activePosts\<close> returns with the new element indexed under its path and held in
  \<open>replyBuffer\<close> under the parent's path; the child lists are left as they are. Let the
  creation update of a post arrive that has no parent or a parent in \<open>activePosts\<close> other
  than itself, and let \<open>bs\<close> be the elements that wait for it: the element that
  \<open>replyBuffer\<close> holds under the post's path, the one it holds under the path of that
  element, and so on. When these are finitely many, differ from each other, and none of them
  is the parent of the post or one of its ancestors, \<open>handleUpdate\<close> returns: the new
  element is in the list of its target, the first waiting element is among its replies, each
  further one among the replies of the one before, the invariants of the post tree hold, and
  \<open>replyBuffer\<close> is unchanged, so no entry is removed.
\<close>

theorem orphan_is_buffered_then_released:
  assumes cr: "\<not> (activePosts v (path post) \<noteq> None \<and> reactions (doc post) \<noteq> None)"
  shows "(is_orphan post u v \<longrightarrow>
            handleUpdate post u v =
              Some (Returned ((new_post_view post u v)
                 \<lparr>replyBuffer := (replyBuffer v)(the (parent (doc post)) \<mapsto> length (elems v))\<rparr>)))
       \<and> (view_ok v \<and> \<not> is_orphan post u v \<and> parent (doc post) \<noteq> Some (path post)
            \<and> buffered_chain k v (path post) = Some bs \<and> distinct bs
            \<and> (\<forall>b\<in>set bs. \<forall>g. parent_post post u v = Some g
                     \<longrightarrow> \<not> ancestor_or_self (Suc (length (elems v))) v b g) \<longrightarrow>
            (\<exists>v'. handleUpdate post u v = Some (Returned v')
               \<and> view_ok v'
               \<and> activePosts v' = (activePosts v)(path post \<mapsto> length (elems v))
               \<and> PostNode (length (elems v))
                    \<in> set (container_children (target (parent_post post u v)) v')
               \<and> linked v' (length (elems v) # bs)
               \<and> replyBuffer v' = replyBuffer v))"
proof (intro conjI impI)
  {
    assume "is_orphan post u v"
    then show "handleUpdate post u v =
              Some (Returned ((new_post_view post u v)
                 \<lparr>replyBuffer := (replyBuffer v)(the (parent (doc post)) \<mapsto> length (elems v))\<rparr>))"
      by (simp add: handleUpdate_new_post [OF cr])
  }
  {
    assume h: "view_ok v \<and> \<not> is_orphan post u v \<and> parent (doc post) \<noteq> Some (path post)
            \<and> buffered_chain k v (path post) = Some bs \<and> distinct bs
            \<and> (\<forall>b\<in>set bs. \<forall>g. parent_post post u v = Some g
                     \<longrightarrow> \<not> ancestor_or_self (Suc (length (elems v))) v b g)"
    then have ok: "view_ok v" and no: "\<not> is_orphan post u v"
      and self: "parent (doc post) \<noteq> Some (path post)"
      and ch: "buffered_chain k v (path post) = Some bs" and di: "distinct bs"
      and ac: "\<forall>b\<in>set bs. \<forall>g. parent_post post u v = Some g
                     \<longrightarrow> \<not> ancestor_or_self (Suc (length (elems v))) v b g"
      by simp_all
    from handleUpdate_chain [OF ok no self cr ch di ac]
    show "\<exists>v'. handleUpdate post u v = Some (Returned v')
               \<and> view_ok v'
               \<and> activePosts v' = (activePosts v)(path post \<mapsto> length (elems v))
               \<and> PostNode (length (elems v))
                    \<in> set (container_children (target (parent_post post u v)) v')
               \<and> linked v' (length (elems v) # bs)
               \<and> replyBuffer v' = replyBuffer v"
      by blast
  }
qed

theorem orphan_is_buffered_then_released_witness:
  "is_orphan (mk_post ''r1'' (Some ''p1'') 5 ''bob'') ''alice'' new_View
   \<and> handleUpdate (mk_post ''r1'' (Some ''p1'') 5 ''bob'') ''alice'' new_View
       = Some (Returned view_orphan_r1)
   \<and> replyBuffer view_orphan_r1 ''p1'' = Some 0
   \<and> activePosts view_orphan_r1 ''r1'' = Some 0
   \<and> all_children view_orphan_r1 = []
   \<and> view_ok view_orphan_r1
   \<and> \<not> is_orphan (mk_post ''p1'' None 0 ''bob'') ''alice'' view_orphan_r1
   \<and> buffered_chain 2 view_orphan_r1 ''p1'' = Some [0]
   \<and> handleUpdate (mk_post ''p1'' None 0 ''bob'') ''alice'' view_orphan_r1
       = Some (Returned (returned (handleUpdate (mk_post ''p1'' None 0 ''bob'') ''alice''
                                      view_orphan_r1)))
   \<and> PostNode 1 \<in> set (channelPosts
        (returned (handleUpdate (mk_post ''p1'' None 0 ''bob'') ''alice'' view_orphan_r1)))
   \<and> PostNode 0 \<in> set (replies (elems (returned (handleUpdate (mk_post ''p1'' None 0 ''bob'')
        ''alice'' view_orphan_r1)) ! 1))
   \<and> replyBuffer (returned (handleUpdate (mk_post ''p1'' None 0 ''bob'') ''alice''
                                view_orphan_r1)) ''p1'' = Some 0
   \<and> view_ok view_nested_orphans
   \<and> buffered_chain 3 view_nested_orphans ''p1'' = Some [1, 0]
   \<and> PostNode 2 \<in> set (channelPosts
        (returned (handleUpdate (mk_post ''p1'' None 0 ''bob'') ''alice'' view_nested_orphans)))
   \<and> PostNode 1 \<in> set (replies (elems (returned (handleUpdate (mk_post ''p1'' None 0 ''bob'')
        ''alice'' view_nested_orphans)) ! 2))
   \<and> PostNode 0 \<in> set (replies (elems (returned (handleUpdate (mk_post ''p1'' None 0 ''bob'')
        ''alice'' view_nested_orphans)) ! 1))
   \<and> view_ok view_p0_orphan_r2
   \<and> buffered_chain 2 view_p0_orphan_r2 ''r1'' = Some [1]
   \<and> parent_post r1_under_p0 ''alice'' view_p0_orphan_r2 = Some 0
   \<and> \<not> ancestor_or_self (Suc (length (elems view_p0_orphan_r2))) view_p0_orphan_r2 1 0
   \<and> PostNode 2 \<in> set (replies
        (elems (returned (handleUpdate r1_under_p0 ''alice'' view_p0_orphan_r2)) ! 0))
   \<and> PostNode 1 \<in> set (replies
        (elems (returned (handleUpdate r1_under_p0 ''alice'' view_p0_orphan_r2)) ! 2))"
proof -
  let ?R1 = "mk_post ''r1'' (Some ''p1'') 5 ''bob''"
  let ?P1 = "mk_post ''p1'' None 0 ''bob''"
  let ?v = view_orphan_r1
  let ?w = view_p0_orphan_r2
  let ?x = view_nested_orphans
  have cr1: "\<not> (activePosts new_View (path ?R1) \<noteq> None \<and> reactions (doc ?R1) \<noteq> None)"
    by (simp add: view_eval)
  have o1: "is_orphan ?R1 ''alice'' new_View"
    by (simp add: view_eval is_orphan_def new_post_view_def)
  note tA = orphan_is_buffered_then_released [OF cr1, of "''alice''" 0 "[]"]
  from tA o1 have rA: "handleUpdate ?R1 ''alice'' new_View =
      Some (Returned ((new_post_view ?R1 ''alice'' new_View)
         \<lparr>replyBuffer := (replyBuffer new_View)(the (parent (doc ?R1)) \<mapsto> length (elems new_View))\<rparr>))"
    by blast
  then have vA: "?v = (new_post_view ?R1 ''alice'' new_View)
         \<lparr>replyBuffer := (replyBuffer new_View)(the (parent (doc ?R1)) \<mapsto> length (elems new_View))\<rparr>"
    by (simp add: view_orphan_r1_def returned_def)
  have fA: "replyBuffer ?v ''p1'' = Some 0 \<and> activePosts ?v ''r1'' = Some 0
            \<and> all_children ?v = [] \<and> length (elems ?v) = 1
            \<and> buffered_chain 2 ?v ''p1'' = Some [0]"
    unfolding vA by (simp add: view_eval tree_eval new_post_view_def numeral_2_eq_2)
  have okv: "view_ok ?v"
    using handleUpdate_ok [OF view_ok_new rA] vA by simp
  have cr2: "\<not> (activePosts ?v (path ?P1) \<noteq> None \<and> reactions (doc ?P1) \<noteq> None)"
    by (simp add: view_eval)
  have hB: "\<not> is_orphan ?P1 ''alice'' ?v \<and> parent (doc ?P1) \<noteq> Some (path ?P1)
            \<and> buffered_chain 2 ?v (path ?P1) = Some [0] \<and> distinct [0::nat]
            \<and> target (parent_post ?P1 ''alice'' ?v) = TopLevel
            \<and> (\<forall>b\<in>set [0]. \<forall>g. parent_post ?P1 ''alice'' ?v = Some g
                     \<longrightarrow> \<not> ancestor_or_self (Suc (length (elems ?v))) ?v b g)"
    using fA by (simp add: view_eval is_orphan_def parent_post_def target_def)
  note tB = orphan_is_buffered_then_released [OF cr2, of "''alice''" 2 "[0]"]
  from tB okv hB obtain v' where rB: "handleUpdate ?P1 ''alice'' ?v = Some (Returned v')"
    and mB: "PostNode (length (elems ?v))
               \<in> set (container_children (target (parent_post ?P1 ''alice'' ?v)) v')"
    and cB: "linked v' (length (elems ?v) # [0])"
    and bB: "replyBuffer v' = replyBuffer ?v"
    by blast
  from rB have RB: "returned (handleUpdate ?P1 ''alice'' ?v) = v'" by (simp add: returned_def)
  from mB hB fA have mB': "PostNode 1 \<in> set (channelPosts v')"
    by (simp add: container_children_def)
  from cB fA have cB': "PostNode 0 \<in> set (replies (elems v' ! 1))" by simp
  from bB fA have bB': "replyBuffer v' ''p1'' = Some 0" by simp
  have okx: "view_ok ?x"
    using deliver_ok [OF view_ok_new,
        of "[mk_post ''r2'' (Some ''r1'') 9 ''bob'', mk_post ''r1'' (Some ''p1'') 5 ''bob'']"
           "''alice''" ?x]
    by (simp add: view_eval view_nested_orphans_def)
  have cr4: "\<not> (activePosts ?x (path ?P1) \<noteq> None \<and> reactions (doc ?P1) \<noteq> None)"
    by (simp add: view_eval)
  have fX: "length (elems ?x) = 2 \<and> buffered_chain 3 ?x ''p1'' = Some [1, 0]"
    by (simp add: view_eval tree_eval view_nested_orphans_def numeral_3_eq_3)
  have hX: "\<not> is_orphan ?P1 ''alice'' ?x \<and> parent (doc ?P1) \<noteq> Some (path ?P1)
            \<and> buffered_chain 3 ?x (path ?P1) = Some [1, 0] \<and> distinct [1, 0::nat]
            \<and> target (parent_post ?P1 ''alice'' ?x) = TopLevel
            \<and> (\<forall>b\<in>set [1, 0]. \<forall>g. parent_post ?P1 ''alice'' ?x = Some g
                     \<longrightarrow> \<not> ancestor_or_self (Suc (length (elems ?x))) ?x b g)"
    using fX by (simp add: view_eval is_orphan_def parent_post_def target_def)
  note tX = orphan_is_buffered_then_released [OF cr4, of "''alice''" 3 "[1, 0]"]
  from tX okx hX obtain x' where rX: "handleUpdate ?P1 ''alice'' ?x = Some (Returned x')"
    and mX: "PostNode (length (elems ?x))
               \<in> set (container_children (target (parent_post ?P1 ''alice'' ?x)) x')"
    and cX: "linked x' (length (elems ?x) # [1, 0])"
    by blast
  from rX have RX: "returned (handleUpdate ?P1 ''alice'' ?x) = x'" by (simp add: returned_def)
  from mX hX fX have mX': "PostNode 2 \<in> set (channelPosts x')"
    by (simp add: container_children_def)
  from cX fX have cX': "PostNode 1 \<in> set (replies (elems x' ! 2))
                        \<and> PostNode 0 \<in> set (replies (elems x' ! 1))" by simp
  have okw: "view_ok ?w"
    using deliver_ok [OF view_ok_new,
        of "[mk_post ''p0'' None 0 ''bob'', mk_post ''r2'' (Some ''r1'') 9 ''bob'']" "''alice''" ?w]
    by (simp add: view_eval view_p0_orphan_r2_def)
  have cr3: "\<not> (activePosts ?w (path r1_under_p0) \<noteq> None \<and> reactions (doc r1_under_p0) \<noteq> None)"
    by (simp add: view_eval r1_under_p0_def)
  have fC: "length (elems ?w) = 2
            \<and> buffered_chain 2 ?w ''r1'' = Some [1]
            \<and> parent_post r1_under_p0 ''alice'' ?w = Some 0
            \<and> \<not> is_orphan r1_under_p0 ''alice'' ?w
            \<and> parent (doc r1_under_p0) \<noteq> Some (path r1_under_p0)
            \<and> buffered_chain 2 ?w (path r1_under_p0) = Some [1]"
    by (simp add: view_eval tree_eval view_p0_orphan_r2_def r1_under_p0_def parent_post_def
        is_orphan_def new_post_view_def numeral_2_eq_2)
  have aC: "\<not> ancestor_or_self (Suc (length (elems ?w))) ?w 1 0"
    by (simp add: view_eval tree_eval view_p0_orphan_r2_def)
  with fC have aC': "distinct [1::nat] \<and> (\<forall>b\<in>set [1]. \<forall>g. parent_post r1_under_p0 ''alice'' ?w = Some g
                     \<longrightarrow> \<not> ancestor_or_self (Suc (length (elems ?w))) ?w b g)"
    by simp
  note tC = orphan_is_buffered_then_released [OF cr3, of "''alice''" 2 "[1]"]
  from tC okw fC aC' obtain w' where rC: "handleUpdate r1_under_p0 ''alice'' ?w = Some (Returned w')"
    and mC: "PostNode (length (elems ?w))
               \<in> set (container_children (target (parent_post r1_under_p0 ''alice'' ?w)) w')"
    and cC: "linked w' (length (elems ?w) # [1])"
    by blast
  from rC have RC: "returned (handleUpdate r1_under_p0 ''alice'' ?w) = w'"
    by (simp add: returned_def)
  from mC fC have mC': "PostNode 2 \<in> set (replies (elems w' ! 0))"
    by (simp add: container_children_def target_def)
  from cC fC have cC': "PostNode 1 \<in> set (replies (elems w' ! 2))" by simp
  have hB': "\<not> is_orphan ?P1 ''alice'' ?v" using hB by simp
  show ?thesis
    unfolding RB RX RC
    using o1 rA vA fA okv hB' rB mB' cB' bB' okx fX mX' cX' okw fC aC mC' cC' by simp
qed

text \<open>
  Claim C10, as the specification states it, fails for an update that names a parent which
  is not in \<open>activePosts\<close>. The post \<open>p1\<close> is displayed; an update for \<open>p1\<close>
  without reactions that names the unknown parent \<open>zz\<close> builds a second element and makes
  \<open>activePosts\<close> point to it, but the element is put in the reply buffer and in no child
  list, so the post is displayed once. Likewise a second delivery of the orphan \<open>r1\<close>
  leaves no element of \<open>r1\<close> in any list. It also fails when the element indexed before
  is not displayed: after \<open>r1\<close>, \<open>r2\<close> and their parent \<open>p1\<close>, the element of
  \<open>r1\<close> is in no list, and a second update for \<open>r1\<close> leaves \<open>r1\<close> displayed
  once.
\<close>

theorem known_path_with_unknown_parent_is_buffered:
  "activePosts view_p1 ''p1'' = Some 0
   \<and> channelPosts view_p1 = [PostNode 0]
   \<and> reactions (doc p1_with_unknown_parent) = None
   \<and> handleUpdate p1_with_unknown_parent ''alice'' view_p1
       = Some (Returned (returned (handleUpdate p1_with_unknown_parent ''alice'' view_p1)))
   \<and> activePosts (returned (handleUpdate p1_with_unknown_parent ''alice'' view_p1)) ''p1'' = Some 1
   \<and> replyBuffer (returned (handleUpdate p1_with_unknown_parent ''alice'' view_p1)) ''zz'' = Some 1
   \<and> all_children (returned (handleUpdate p1_with_unknown_parent ''alice'' view_p1)) = [PostNode 0]
   \<and> activePosts view_orphan_r1 ''r1'' = Some 0
   \<and> handleUpdate (mk_post ''r1'' (Some ''p1'') 5 ''bob'') ''alice'' view_orphan_r1
       = Some (Returned (returned (handleUpdate (mk_post ''r1'' (Some ''p1'') 5 ''bob'') ''alice''
                                      view_orphan_r1)))
   \<and> activePosts (returned (handleUpdate (mk_post ''r1'' (Some ''p1'') 5 ''bob'') ''alice''
                                view_orphan_r1)) ''r1'' = Some 1
   \<and> all_children (returned (handleUpdate (mk_post ''r1'' (Some ''p1'') 5 ''bob'') ''alice''
                                view_orphan_r1)) = []
   \<and> activePosts view_lost_r1 ''r1'' = Some 0
   \<and> activePosts view_lost_r1 ''p1'' = Some 2
   \<and> all_children view_lost_r1 = [PostNode 2, PostNode 1]
   \<and> handleUpdate (mk_post ''r1'' (Some ''p1'') 5 ''bob'') ''alice'' view_lost_r1
       = Some (Returned (returned (handleUpdate (mk_post ''r1'' (Some ''p1'') 5 ''bob'') ''alice''
                                      view_lost_r1)))
   \<and> map postId (elems (returned (handleUpdate (mk_post ''r1'' (Some ''p1'') 5 ''bob'') ''alice''
                                view_lost_r1))) = [''r1'', ''r2'', ''p1'', ''r1'']
   \<and> all_children (returned (handleUpdate (mk_post ''r1'' (Some ''p1'') 5 ''bob'') ''alice''
                                view_lost_r1)) = [PostNode 2, PostNode 3, PostNode 1]"
  by (simp add: view_eval tree_eval p1_with_unknown_parent_def view_orphan_r1_def
      view_lost_r1_def)

text \<open>
  Claim C10, amended. An update without reactions whose path is in \<open>activePosts\<close> is not
  treated as a patch of the existing element. When it names a parent that is not in
  \<open>activePosts\<close>, \<open>handleUpdate\<close> returns with a new element for the same path that
  \<open>activePosts\<close> now points to and that is held in \<open>replyBuffer\<close> under the parent's
  path; the child lists are left as they are. When it has no parent or a parent in
  \<open>activePosts\<close> other than itself, and the elements that wait in \<open>replyBuffer\<close> for
  its path are finitely many, differ from each other, are not the element indexed before and
  not the parent or one of its ancestors, \<open>handleUpdate\<close> returns with a new element for
  the same path, the last of \<open>elems\<close>, that \<open>activePosts\<close> now points to and that is
  in the list of its target, while the element indexed before stays in every list it was in.
  If moreover the element indexed before carries the path and is displayed, the parent, if
  there is one, is displayed, and no waiting element is the element indexed before or one of
  its ancestors, then after the update both elements carry the path and both are displayed:
  the post is displayed twice.
\<close>

theorem known_path_without_reactions_duplicates:
  assumes ok: "view_ok v" and idx: "activePosts v (path post) = Some a"
    and nr: "reactions (doc post) = None"
  shows "(is_orphan post u v \<longrightarrow>
            (\<exists>v'. handleUpdate post u v = Some (Returned v')
               \<and> elems v' = elems v @ [new_PostElement None (path post) u (meta_createdAt (meta post))]
               \<and> activePosts v' = (activePosts v)(path post \<mapsto> length (elems v))
               \<and> replyBuffer v' = (replyBuffer v)(the (parent (doc post)) \<mapsto> length (elems v))
               \<and> all_children v' = all_children v))
       \<and> (\<not> is_orphan post u v \<and> parent (doc post) \<noteq> Some (path post)
            \<and> buffered_chain k v (path post) = Some bs \<and> distinct bs \<and> a \<notin> set bs
            \<and> (\<forall>b\<in>set bs. \<forall>g. parent_post post u v = Some g
                     \<longrightarrow> \<not> ancestor_or_self (Suc (length (elems v))) v b g) \<longrightarrow>
            (\<exists>v'. handleUpdate post u v = Some (Returned v')
               \<and> a < length (elems v)
               \<and> activePosts v' = (activePosts v)(path post \<mapsto> length (elems v))
               \<and> map postId (elems v') = map postId (elems v) @ [path post]
               \<and> PostNode (length (elems v))
                    \<in> set (container_children (target (parent_post post u v)) v')
               \<and> (\<forall>c. container_ok v c \<and> PostNode a \<in> set (container_children c v)
                        \<longrightarrow> PostNode a \<in> set (container_children c v'))
               \<and> (postId (elems v ! a) = path post \<and> displayed v a
                    \<and> (\<forall>b\<in>set bs. \<not> ancestor_or_self (length (elems v)) v b a)
                    \<and> (\<forall>g. parent_post post u v = Some g \<longrightarrow> displayed v g)
                  \<longrightarrow> postId (elems v' ! a) = path post
                      \<and> postId (elems v' ! length (elems v)) = path post
                      \<and> displayed v' a \<and> displayed v' (length (elems v)))))"
proof (intro conjI impI)
  have cr: "\<not> (activePosts v (path post) \<noteq> None \<and> reactions (doc post) \<noteq> None)"
    using nr by simp
  {
    assume o: "is_orphan post u v"
    let ?v' = "(new_post_view post u v)
                 \<lparr>replyBuffer := (replyBuffer v)(the (parent (doc post)) \<mapsto> length (elems v))\<rparr>"
    have "handleUpdate post u v = Some (Returned ?v')"
      using o by (simp add: handleUpdate_new_post [OF cr])
    moreover have "elems ?v' = elems v @ [new_PostElement None (path post) u (meta_createdAt (meta post))]"
      by (simp add: new_post_view_def nr)
    moreover have "all_children ?v' = all_children v"
      by (simp add: all_children_def new_post_view_def)
    ultimately show "\<exists>v'. handleUpdate post u v = Some (Returned v')
               \<and> elems v' = elems v @ [new_PostElement None (path post) u (meta_createdAt (meta post))]
               \<and> activePosts v' = (activePosts v)(path post \<mapsto> length (elems v))
               \<and> replyBuffer v' = (replyBuffer v)(the (parent (doc post)) \<mapsto> length (elems v))
               \<and> all_children v' = all_children v"
      by simp
  }
  {
    assume h: "\<not> is_orphan post u v \<and> parent (doc post) \<noteq> Some (path post)
            \<and> buffered_chain k v (path post) = Some bs \<and> distinct bs \<and> a \<notin> set bs
            \<and> (\<forall>b\<in>set bs. \<forall>g. parent_post post u v = Some g
                     \<longrightarrow> \<not> ancestor_or_self (Suc (length (elems v))) v b g)"
    then have no: "\<not> is_orphan post u v" and self: "parent (doc post) \<noteq> Some (path post)"
      and ch: "buffered_chain k v (path post) = Some bs" and di: "distinct bs"
      and ab: "a \<notin> set bs"
      and ac: "\<forall>b\<in>set bs. \<forall>g. parent_post post u v = Some g
                     \<longrightarrow> \<not> ancestor_or_self (Suc (length (elems v))) v b g"
      by simp_all
    let ?n = "length (elems v)"
    let ?par = "parent_post post u v"
    note pp = parent_post_old [OF ok no self]
    from ok idx have a: "a < ?n" by (simp add: view_ok_def refs_ok_def)
    from handleUpdate_chain [OF ok no self cr ch di ac]
    obtain v' where r: "handleUpdate post u v = Some (Returned v')"
      and ok': "view_ok v'"
      and ap: "activePosts v' = (activePosts v)(path post \<mapsto> ?n)"
      and m: "PostNode ?n \<in> set (container_children (target ?par) v')"
      and f: "\<forall>c a. container_ok v c \<and> a \<notin> set bs \<and> a \<noteq> ?n
                 \<longrightarrow> (PostNode a \<in> set (container_children c v'))
                      = (PostNode a \<in> set (container_children c v))"
      and i: "map postId (elems v') = map postId (elems v) @ [path post]"
      by blast
    from f ab a have st: "\<forall>c. container_ok v c \<and> PostNode a \<in> set (container_children c v)
                        \<longrightarrow> PostNode a \<in> set (container_children c v')"
      by auto
    from ok' have t': "tree_ok v'" by (simp add: view_ok_def)
    have len: "length (elems v') = Suc ?n"
      using arg_cong [OF i, of length] by simp
    have ia: "postId (elems v' ! a) = postId (elems v ! a)"
      using arg_cong [OF i, of "\<lambda>l. l ! a"] a len by (simp add: nth_append)
    have inn: "postId (elems v' ! ?n) = path post"
      using arg_cong [OF i, of "\<lambda>l. l ! ?n"] len by (simp add: nth_append)
    have dis: "postId (elems v ! a) = path post \<and> displayed v a
                    \<and> (\<forall>b\<in>set bs. \<not> ancestor_or_self ?n v b a)
                    \<and> (\<forall>g. ?par = Some g \<longrightarrow> displayed v g)
                  \<longrightarrow> postId (elems v' ! a) = path post
                      \<and> postId (elems v' ! ?n) = path post
                      \<and> displayed v' a \<and> displayed v' ?n"
    proof (intro impI)
      assume d: "postId (elems v ! a) = path post \<and> displayed v a
                    \<and> (\<forall>b\<in>set bs. \<not> ancestor_or_self ?n v b a)
                    \<and> (\<forall>g. ?par = Some g \<longrightarrow> displayed v g)"
      then have da: "attached ?n v a" and na: "\<forall>b\<in>set bs. \<not> ancestor_or_self ?n v b a"
        by (simp_all add: displayed_def)
      have "attached ?n v' a" using attached_kept [OF t' len f a na da] .
      then have d1: "displayed v' a" using attached_mono by (simp add: displayed_def len)
      have d2: "displayed v' ?n"
      proof (cases ?par)
        case None
        with m have "PostNode ?n \<in> set (channelPosts v')"
          by (simp add: target_def container_children_def)
        then show ?thesis unfolding displayed_def by (rule attached_top)
      next
        case (Some g)
        from pp(1) Some have g: "g < ?n" by (simp add: target_def container_ok_def)
        from d Some have dg: "attached ?n v g" by (simp add: displayed_def)
        from ac Some have "\<forall>b\<in>set bs. \<not> ancestor_or_self (Suc ?n) v b g" by simp
        then have ng: "\<forall>b\<in>set bs. \<not> ancestor_or_self ?n v b g" using ancestor_mono by blast
        have ag: "attached ?n v' g" using attached_kept [OF t' len f g ng dg] .
        from m Some have "PostNode ?n \<in> set (replies (elems v' ! g))"
          by (simp add: target_def container_children_def)
        moreover have "g < length (elems v')" using g len by simp
        ultimately have "parent_elem v' (PostNode ?n) = Some g"
          using parent_elem_unique [OF t'] by blast
        with ag show ?thesis by (simp add: displayed_def len)
      qed
      from d ia inn d1 d2
      show "postId (elems v' ! a) = path post \<and> postId (elems v' ! ?n) = path post
              \<and> displayed v' a \<and> displayed v' ?n"
        by simp
    qed
    from r a ap i m st dis
    show "\<exists>v'. handleUpdate post u v = Some (Returned v')
               \<and> a < length (elems v)
               \<and> activePosts v' = (activePosts v)(path post \<mapsto> length (elems v))
               \<and> map postId (elems v') = map postId (elems v) @ [path post]
               \<and> PostNode (length (elems v))
                    \<in> set (container_children (target (parent_post post u v)) v')
               \<and> (\<forall>c. container_ok v c \<and> PostNode a \<in> set (container_children c v)
                        \<longrightarrow> PostNode a \<in> set (container_children c v'))
               \<and> (postId (elems v ! a) = path post \<and> displayed v a
                    \<and> (\<forall>b\<in>set bs. \<not> ancestor_or_self (length (elems v)) v b a)
                    \<and> (\<forall>g. parent_post post u v = Some g \<longrightarrow> displayed v g)
                  \<longrightarrow> postId (elems v' ! a) = path post
                      \<and> postId (elems v' ! length (elems v)) = path post
                      \<and> displayed v' a \<and> displayed v' (length (elems v)))"
      by blast
  }
qed

theorem known_path_without_reactions_duplicates_witness:
  "view_ok view_p1
   \<and> activePosts view_p1 ''p1'' = Some 0
   \<and> postId (elems view_p1 ! 0) = ''p1''
   \<and> displayed view_p1 0
   \<and> \<not> is_orphan (mk_post ''p1'' None 0 ''bob'') ''alice'' view_p1
   \<and> buffered_chain 1 view_p1 ''p1'' = Some []
   \<and> handleUpdate (mk_post ''p1'' None 0 ''bob'') ''alice'' view_p1
       = Some (Returned (returned (handleUpdate (mk_post ''p1'' None 0 ''bob'') ''alice'' view_p1)))
   \<and> activePosts (returned (handleUpdate (mk_post ''p1'' None 0 ''bob'') ''alice'' view_p1)) ''p1''
       = Some 1
   \<and> map postId (elems (returned (handleUpdate (mk_post ''p1'' None 0 ''bob'') ''alice'' view_p1)))
       = [''p1'', ''p1'']
   \<and> displayed (returned (handleUpdate (mk_post ''p1'' None 0 ''bob'') ''alice'' view_p1)) 0
   \<and> displayed (returned (handleUpdate (mk_post ''p1'' None 0 ''bob'') ''alice'' view_p1)) 1
   \<and> is_orphan p1_with_unknown_parent ''alice'' view_p1
   \<and> all_children (returned (handleUpdate p1_with_unknown_parent ''alice'' view_p1))
       = all_children view_p1
   \<and> view_ok view_released_r1
   \<and> activePosts view_released_r1 ''p1'' = Some 1
   \<and> displayed view_released_r1 1
   \<and> buffered_chain 2 view_released_r1 ''p1'' = Some [0]
   \<and> map postId (elems (returned (handleUpdate (mk_post ''p1'' None 0 ''bob'') ''alice''
        view_released_r1))) = [''r1'', ''p1'', ''p1'']
   \<and> displayed (returned (handleUpdate (mk_post ''p1'' None 0 ''bob'') ''alice''
        view_released_r1)) 1
   \<and> displayed (returned (handleUpdate (mk_post ''p1'' None 0 ''bob'') ''alice''
        view_released_r1)) 2
   \<and> view_ok view_p1_r2
   \<and> activePosts view_p1_r2 ''r2'' = Some 1
   \<and> displayed view_p1_r2 1
   \<and> parent_post (mk_post ''r2'' (Some ''p1'') 20 ''bob'') ''alice'' view_p1_r2 = Some 0
   \<and> map postId (elems (returned (handleUpdate (mk_post ''r2'' (Some ''p1'') 20 ''bob'') ''alice''
        view_p1_r2))) = [''p1'', ''r2'', ''r2'']
   \<and> displayed (returned (handleUpdate (mk_post ''r2'' (Some ''p1'') 20 ''bob'') ''alice''
        view_p1_r2)) 1
   \<and> displayed (returned (handleUpdate (mk_post ''r2'' (Some ''p1'') 20 ''bob'') ''alice''
        view_p1_r2)) 2"
proof -
  let ?P = "mk_post ''p1'' None 0 ''bob''"
  let ?Q = "mk_post ''r2'' (Some ''p1'') 20 ''bob''"
  let ?y = view_released_r1 and ?z = view_p1_r2
  note defs = view_released_r1_def orphan_then_parent_def view_p1_r2_def replies_out_of_order_def
    p1_with_unknown_parent_def displayed_def is_orphan_def parent_post_def new_post_view_def
  have ok: "view_ok view_p1"
    using handleUpdate_ok [OF view_ok_new, of ?P "''alice''" view_p1]
    by (simp add: view_eval)
  have idx: "activePosts view_p1 (path ?P) = Some 0" by (simp add: view_eval)
  have nr: "reactions (doc ?P) = None" by (simp add: view_eval)
  have idx2: "activePosts view_p1 (path p1_with_unknown_parent) = Some 0"
    by (simp add: view_eval defs)
  have nr2: "reactions (doc p1_with_unknown_parent) = None"
    by (simp add: view_eval defs)
  have e: "length (elems view_p1) = 1 \<and> map postId (elems view_p1) = [''p1'']
           \<and> postId (elems view_p1 ! 0) = ''p1'' \<and> displayed view_p1 0
           \<and> buffered_chain 1 view_p1 ''p1'' = Some []"
    by (simp add: view_eval tree_eval defs)
  have h: "\<not> is_orphan ?P ''alice'' view_p1 \<and> parent (doc ?P) \<noteq> Some (path ?P)
             \<and> buffered_chain 1 view_p1 (path ?P) = Some [] \<and> distinct ([]::nat list)
             \<and> 0 \<notin> set ([]::nat list)
             \<and> (\<forall>b\<in>set []. \<forall>g. parent_post ?P ''alice'' view_p1 = Some g
                     \<longrightarrow> \<not> ancestor_or_self (Suc (length (elems view_p1))) view_p1 b g)"
    by (simp add: view_eval defs)
  have h': "postId (elems view_p1 ! 0) = path ?P \<and> displayed view_p1 0
                    \<and> (\<forall>b\<in>set []. \<not> ancestor_or_self (length (elems view_p1)) view_p1 b 0)
                    \<and> (\<forall>g. parent_post ?P ''alice'' view_p1 = Some g \<longrightarrow> displayed view_p1 g)"
    using e by (simp add: view_eval parent_post_def)
  have o: "is_orphan p1_with_unknown_parent ''alice'' view_p1"
    by (simp add: view_eval defs)
  note t = known_path_without_reactions_duplicates [OF ok idx nr, of "''alice''" 1 "[]"]
  from t h h' obtain v' where r: "handleUpdate ?P ''alice'' view_p1 = Some (Returned v')"
    and a: "activePosts v' = (activePosts view_p1)(path ?P \<mapsto> length (elems view_p1))"
    and i: "map postId (elems v') = map postId (elems view_p1) @ [path ?P]"
    and d: "displayed v' 0 \<and> displayed v' (length (elems view_p1))"
    by blast
  from r have R: "returned (handleUpdate ?P ''alice'' view_p1) = v'" by (simp add: returned_def)
  from i e have ids: "map postId (elems v') = [''p1'', ''p1'']" by (simp add: view_eval)
  from a e have a': "activePosts v' ''p1'' = Some 1" by (simp add: view_eval)
  from d e have d': "displayed v' 0 \<and> displayed v' 1" by simp
  note t2 = known_path_without_reactions_duplicates [OF ok idx2 nr2, of "''alice''" 1 "[]"]
  from t2 o obtain w where r2: "handleUpdate p1_with_unknown_parent ''alice'' view_p1
        = Some (Returned w)" and c2: "all_children w = all_children view_p1"
    by blast
  from r2 have R2: "returned (handleUpdate p1_with_unknown_parent ''alice'' view_p1) = w"
    by (simp add: returned_def)
  have oky: "view_ok ?y"
    using deliver_ok [OF view_ok_new, of orphan_then_parent "''alice''" ?y]
    by (simp add: view_eval tree_eval defs)
  have ey: "activePosts ?y (path ?P) = Some 1
            \<and> length (elems ?y) = 2 \<and> map postId (elems ?y) = [''r1'', ''p1'']
            \<and> buffered_chain 2 ?y (path ?P) = Some [0]
            \<and> \<not> is_orphan ?P ''alice'' ?y \<and> parent (doc ?P) \<noteq> Some (path ?P)
            \<and> postId (elems ?y ! 1) = path ?P \<and> displayed ?y 1"
    by (simp add: view_eval tree_eval defs numeral_2_eq_2)
  then have idy: "activePosts ?y (path ?P) = Some 1" by simp
  have hy: "distinct [0::nat] \<and> 1 \<notin> set [0::nat]
            \<and> (\<forall>b\<in>set [0]. \<forall>g. parent_post ?P ''alice'' ?y = Some g
                     \<longrightarrow> \<not> ancestor_or_self (Suc (length (elems ?y))) ?y b g)
            \<and> (\<forall>b\<in>set [0]. \<not> ancestor_or_self (length (elems ?y)) ?y b 1)
            \<and> (\<forall>g. parent_post ?P ''alice'' ?y = Some g \<longrightarrow> displayed ?y g)"
    by (simp add: view_eval tree_eval defs)
  note t3 = known_path_without_reactions_duplicates [OF oky idy nr, of "''alice''" 2 "[0]"]
  from t3 ey hy obtain y' where r3: "handleUpdate ?P ''alice'' ?y = Some (Returned y')"
    and i3: "map postId (elems y') = map postId (elems ?y) @ [path ?P]"
    and d3: "displayed y' 1 \<and> displayed y' (length (elems ?y))"
    by blast
  from r3 have R3: "returned (handleUpdate ?P ''alice'' ?y) = y'" by (simp add: returned_def)
  from i3 ey have i3': "map postId (elems y') = [''r1'', ''p1'', ''p1'']" by (simp add: view_eval)
  from d3 ey have d3': "displayed y' 1 \<and> displayed y' 2" by simp
  have okz: "view_ok ?z"
    using deliver_ok [OF view_ok_new, of "take 2 replies_out_of_order" "''alice''" ?z]
    by (simp add: view_eval tree_eval defs)
  have nrq: "reactions (doc ?Q) = None" by (simp add: view_eval)
  have ez: "activePosts ?z (path ?Q) = Some 1
            \<and> length (elems ?z) = 2 \<and> map postId (elems ?z) = [''p1'', ''r2'']
            \<and> buffered_chain 1 ?z (path ?Q) = Some []
            \<and> \<not> is_orphan ?Q ''alice'' ?z \<and> parent (doc ?Q) \<noteq> Some (path ?Q)
            \<and> postId (elems ?z ! 1) = path ?Q \<and> displayed ?z 1 \<and> displayed ?z 0
            \<and> parent_post ?Q ''alice'' ?z = Some 0"
    by (simp add: view_eval tree_eval defs numeral_2_eq_2)
  then have idz: "activePosts ?z (path ?Q) = Some 1" by simp
  have hz: "distinct ([]::nat list) \<and> 1 \<notin> set ([]::nat list)
            \<and> (\<forall>b\<in>set []. \<forall>g. parent_post ?Q ''alice'' ?z = Some g
                     \<longrightarrow> \<not> ancestor_or_self (Suc (length (elems ?z))) ?z b g)
            \<and> (\<forall>b\<in>set []. \<not> ancestor_or_self (length (elems ?z)) ?z b 1)
            \<and> (\<forall>g. parent_post ?Q ''alice'' ?z = Some g \<longrightarrow> displayed ?z g)"
    using ez by simp
  note t4 = known_path_without_reactions_duplicates [OF okz idz nrq, of "''alice''" 1 "[]"]
  from t4 ez hz obtain z' where r4: "handleUpdate ?Q ''alice'' ?z = Some (Returned z')"
    and i4: "map postId (elems z') = map postId (elems ?z) @ [path ?Q]"
    and d4: "displayed z' 1 \<and> displayed z' (length (elems ?z))"
    by blast
  from r4 have R4: "returned (handleUpdate ?Q ''alice'' ?z) = z'" by (simp add: returned_def)
  from i4 ez have i4': "map postId (elems z') = [''p1'', ''r2'', ''r2'']" by (simp add: view_eval)
  from d4 ez have d4': "displayed z' 1 \<and> displayed z' 2" by simp
  have hh: "\<not> is_orphan ?P ''alice'' view_p1" using h by simp
  have idx': "activePosts view_p1 ''p1'' = Some 0" using idx by (simp add: view_eval)
  have ey': "activePosts ?y ''p1'' = Some 1 \<and> displayed ?y 1
             \<and> buffered_chain 2 ?y ''p1'' = Some [0]"
    using ey by (simp add: view_eval)
  have ez': "activePosts ?z ''r2'' = Some 1 \<and> displayed ?z 1
             \<and> parent_post ?Q ''alice'' ?z = Some 0"
    using ez by (simp add: view_eval)
  show ?thesis
    unfolding R R2 R3 R4
    using ok idx' e hh r a' ids d' o c2 oky ey' i3' d3' okz ez' i4' d4' by simp
qed

section \<open>The retry timer of the error banner\<close>

lemmas banner_eval =
  new_ErrorView_def showRetriableError_def show_msg_def startCountdown_def abort_controller_def
  new_controller_def add_listener_def dispatchEvent_def clearTimeout_def close_def retry_def
  abortClose_def fire_timeout_def run_listener_def click_def pending_retries_def
  banner_after_select_failure_def banner_after_second_failure_def Let_def

text \<open>
  Claim C9 does not hold of \<open>ErrorView\<close>. \<open>show\<close> and \<open>showRetriableError\<close> abort the
  controller, which removes the listeners of the previous banner, but neither clears the
  timeout of the previous banner: after a second \<open>showRetriableError\<close> two retry
  timeouts are pending, and after \<open>show\<close> the old one still is. When the old timeout
  fires, the first banner's event is dispatched again, and the \<open>close\<close> it ends with
  clears the timeout of the second banner and hides it.
\<close>

theorem previous_retry_timer_not_cancelled:
  "pending_retries banner_after_select_failure = [NamedEvent ''selectChannelEvent'']
   \<and> pending_retries banner_after_second_failure
       = [NamedEvent ''selectChannelEvent'', NamedEvent ''createPostEvent'']
   \<and> map l_action (listeners banner_after_second_failure)
       = [AbortClose (NamedEvent []), Retry (NamedEvent ''createPostEvent'')]
   \<and> dispatched (fire_timeout 1 banner_after_second_failure) = [NamedEvent ''selectChannelEvent'']
   \<and> pending_retries (fire_timeout 1 banner_after_second_failure) = []
   \<and> boxDisplayed (fire_timeout 1 banner_after_second_failure) = False
   \<and> pending_retries (show_msg ''Channel not found in server'' banner_after_select_failure)
       = [NamedEvent ''selectChannelEvent'']
   \<and> dispatched (fire_timeout 1
         (show_msg ''Channel not found in server'' banner_after_select_failure))
       = [NamedEvent ''selectChannelEvent'']"
  by (simp add: banner_eval)

section \<open>Loading a channel\<close>

declare decimal.simps [simp del]

lemma digit_char_digit: "d < 10 \<Longrightarrow> digit_char d \<in> set ''0123456789''"
  unfolding digit_char_def by (rule nth_mem) simp

lemma decimal_digits: "set (decimal n) \<subseteq> set ''0123456789''"
proof (induction n rule: decimal.induct)
  case (1 n)
  show ?case
  proof (cases "n < 10")
    case True
    then show ?thesis using digit_char_digit [of n] by (subst decimal.simps) simp
  next
    case False
    have "n mod 10 < 10" by simp
    then have "digit_char (n mod 10) \<in> set ''0123456789''" by (rule digit_char_digit)
    with False 1 show ?thesis by (subst decimal.simps) simp
  qed
qed

lemma parent_not_decimal: "''parent'' \<noteq> decimal n"
proof
  assume "''parent'' = decimal n"
  then have "CHR ''p'' \<in> set (decimal n)" by (metis list.set_intros(1))
  with decimal_digits [of n] show False by auto
qed

text \<open>
  No array has a property named \<open>parent\<close>, so the test that guards the attachment of a
  reply to its parent never succeeds: the first loop only copies the posts.
\<close>

lemma parent_not_in_array: "\<not> in_array ''parent'' arr"
  using parent_not_decimal by (auto simp: in_array_def array_prototype_names_def)

lemma structure_step_push: "structure_step sps post = sps @ [copy_post post]"
  by (simp add: structure_step_def parent_not_in_array copy_post_def Let_def)

lemma foldl_structure_step: "foldl structure_step acc posts = acc @ map copy_post posts"
  by (induction posts arbitrary: acc) (simp_all add: structure_step_push)

lemma createNestedPosts_leaf:
  "sp_children (sps ! j) = Some [] \<Longrightarrow>
   createNestedPosts (Suc k) sps u j v =
     Some (Returned (v\<lparr>elems := elems v @ [element_of u (sps ! j)],
                       activePosts := (activePosts v)(sp_path (sps ! j) \<mapsto> length (elems v))\<rparr>,
                     length (elems v)))"
  by (simp add: Let_def element_of_def)

lemma displayPost_returns:
  "displayPost n v =
     Returned (v\<lparr>channelPosts := removeAll n (channelPosts v) @ [n],
                 elems := map (\<lambda>e. e\<lparr>replies := removeAll n (replies e)\<rparr>) (elems v)\<rparr>)"
  by (simp add: displayPost_def pre_insert_def hierarchy_ok_def detach_def
      container_children_def set_container_children_def Let_def)

lemma replies_element_of: "replies (element_of u p) = []"
  by (simp add: element_of_def new_PostElement_def)

lemma root_step:
  fixes u :: string and post :: StructuredPost
  assumes ok: "idx_ok v"
  defines "v3 \<equiv> v\<lparr>activePosts := (activePosts v)(sp_path post \<mapsto> length (elems v)),
                    channelPosts := removeAll (PostNode (length (elems v))) (channelPosts v)
                                      @ [PostNode (length (elems v))],
                    elems := map (\<lambda>e. e\<lparr>replies := removeAll (PostNode (length (elems v)))
                                                        (replies e)\<rparr>)
                              (elems v @ [element_of u post])\<rparr>"
  shows "idx_ok v3" and "active_index v3 = (active_index v)(sp_path post \<mapsto> element_of u post)"
proof -
  show "idx_ok v3"
    unfolding idx_ok_def
  proof (intro allI impI)
    fix p a
    assume h: "activePosts v3 p = Some a"
    show "a < length (elems v3) \<and> replies (elems v3 ! a) = []"
    proof (cases "p = sp_path post")
      case True
      with h show ?thesis by (simp add: v3_def nth_append replies_element_of)
    next
      case False
      with h have "activePosts v p = Some a" by (simp add: v3_def)
      with ok have "a < length (elems v)" "replies (elems v ! a) = []"
        by (auto simp: idx_ok_def)
      then show ?thesis by (simp add: v3_def nth_append)
    qed
  qed
  show "active_index v3 = (active_index v)(sp_path post \<mapsto> element_of u post)"
  proof
    fix p
    show "active_index v3 p = ((active_index v)(sp_path post \<mapsto> element_of u post)) p"
    proof (cases "p = sp_path post")
      case True
      then show ?thesis
        by (simp add: active_index_def v3_def nth_append replies_element_of)
    next
      case False
      show ?thesis
      proof (cases "activePosts v p")
        case None
        with False show ?thesis by (simp add: active_index_def v3_def)
      next
        case (Some a)
        with ok have "a < length (elems v)" "replies (elems v ! a) = []"
          by (auto simp: idx_ok_def)
        with False Some show ?thesis
          by (simp add: active_index_def v3_def nth_append)
      qed
    qed
  qed
qed

lemma display_roots_index:
  assumes "\<forall>j\<in>set js. sp_children (sps ! j) = Some []" and "idx_ok v"
  shows "\<exists>v'. display_roots (Suc k) sps u js v = Some (Returned v')
           \<and> active_index v' = foldl (index_step u) (active_index v) (map (nth sps) js)
           \<and> idx_ok v'
           \<and> length (elems v') = length (elems v) + length (filter is_root (map (nth sps) js))
           \<and> replyBuffer v' = replyBuffer v \<and> activeReply v' = activeReply v
           \<and> activeReplyBox v' = activeReplyBox v \<and> currChannel v' = currChannel v"
  using assms
proof (induction js arbitrary: v)
  case Nil
  then show ?case by simp
next
  case (Cons j js)
  then have ch: "sp_children (sps ! j) = Some []"
    and rest: "\<forall>j\<in>set js. sp_children (sps ! j) = Some []"
    by simp_all
  show ?case
  proof (cases "is_root (sps ! j)")
    case False
    with Cons.IH [OF rest Cons.prems(2)] ch show ?thesis
      by (simp add: is_root_def index_step_def)
  next
    case True
    define v3 where
      "v3 = v\<lparr>activePosts := (activePosts v)(sp_path (sps ! j) \<mapsto> length (elems v)),
              channelPosts := removeAll (PostNode (length (elems v))) (channelPosts v)
                                @ [PostNode (length (elems v))],
              elems := map (\<lambda>e. e\<lparr>replies := removeAll (PostNode (length (elems v)))
                                                  (replies e)\<rparr>)
                        (elems v @ [element_of u (sps ! j)])\<rparr>"
    have ok3: "idx_ok v3"
      and ai3: "active_index v3 = (active_index v)(sp_path (sps ! j) \<mapsto> element_of u (sps ! j))"
      using root_step [OF Cons.prems(2), where u = u and post = "sps ! j"]
      unfolding v3_def by simp_all
    have step: "display_roots (Suc k) sps u (j # js) v = display_roots (Suc k) sps u js v3"
      using True ch
      by (simp add: is_root_def createNestedPosts_leaf displayPost_returns v3_def
          del: createNestedPosts.simps)
    from Cons.IH [OF rest ok3] obtain v' where
      r: "display_roots (Suc k) sps u js v3 = Some (Returned v')"
      and a: "active_index v' = foldl (index_step u) (active_index v3) (map (nth sps) js)"
      and o: "idx_ok v'"
      and l: "length (elems v') = length (elems v3) + length (filter is_root (map (nth sps) js))"
      and f: "replyBuffer v' = replyBuffer v3" "activeReply v' = activeReply v3"
             "activeReplyBox v' = activeReplyBox v3" "currChannel v' = currChannel v3"
      by blast
    have "index_step u (active_index v) (sps ! j) = active_index v3"
      using True by (simp add: index_step_def ai3)
    with r a o l f step True show ?thesis
      by (simp add: v3_def)
  qed
qed

lemma idx_ok_cleared:
  "idx_ok (v\<lparr>activePosts := Map.empty, channelPosts := l, currChannel := c, postBoxVisible := b\<rparr>)"
  by (simp add: idx_ok_def)

lemma active_index_cleared:
  "active_index (v\<lparr>activePosts := Map.empty, channelPosts := l, currChannel := c,
                    postBoxVisible := b\<rparr>) = Map.empty"
  by (simp add: active_index_def)

text \<open>
  What a channel load does, whatever the view was: with any positive bound it returns;
  the active index is built from the top-level posts of the list alone; an element is
  constructed for each of them and for no other post; the reply buffer, the reply cursor
  and the reply box are what they were.
\<close>

lemma displayChannelContent_result:
  "\<exists>v'. displayChannelContent (Suc k) ch posts ws u v = Some (Returned v')
         \<and> active_index v' = foldl (index_step u) Map.empty (map copy_post posts)
         \<and> length (elems v') = length (elems v) + length (filter is_root (map copy_post posts))
         \<and> replyBuffer v' = replyBuffer v \<and> activeReply v' = activeReply v
         \<and> activeReplyBox v' = activeReplyBox v \<and> currChannel v' = (ch, ws)"
proof -
  let ?sps = "map copy_post posts"
  let ?v0 = "v\<lparr>activePosts := Map.empty, channelPosts := [], currChannel := (ch, ws),
                postBoxVisible := True\<rparr>"
  have ch: "\<forall>j\<in>set [0..<length ?sps]. sp_children (?sps ! j) = Some []"
    by (simp add: copy_post_def)
  have ok0: "idx_ok ?v0" by (rule idx_ok_cleared)
  from display_roots_index [OF ch ok0, where k = k and u = u]
  obtain v' where r: "display_roots (Suc k) ?sps u [0..<length ?sps] ?v0 = Some (Returned v')"
    and a: "active_index v'
              = foldl (index_step u) (active_index ?v0) (map (nth ?sps) [0..<length ?sps])"
    and l: "length (elems v')
              = length (elems ?v0) + length (filter is_root (map (nth ?sps) [0..<length ?sps]))"
    and f: "replyBuffer v' = replyBuffer ?v0" "activeReply v' = activeReply ?v0"
           "activeReplyBox v' = activeReplyBox ?v0" "currChannel v' = currChannel ?v0"
    by blast
  have m: "map (nth ?sps) [0..<length ?sps] = ?sps" by (rule map_nth)
  have d: "displayChannelContent (Suc k) ch posts ws u v = Some (Returned v')"
    using r
    by (simp add: displayChannelContent_def foldl_structure_step Let_def
        del: display_roots.simps)
  show ?thesis
    using d a l f unfolding m active_index_cleared by simp
qed

lemma dom_index_step_foldl:
  "dom (foldl (index_step u) m sps) = dom m \<union> {sp_path p |p. p \<in> set sps \<and> is_root p}"
  by (induction sps arbitrary: m) (auto simp: index_step_def)

lemma dom_active_index: "dom (active_index v) = dom (activePosts v)"
  by (auto simp: active_index_def dom_def)

lemmas load_eval =
  displayChannelContent_def structure_step_push copy_post_def createNestedPosts_leaf
  displayPost_returns element_of_def post_and_reply_def view_with_orphan_and_reply_box_def
  replyModeOn_def One_nat_def

text \<open>
  Claim C2 does not hold of \<open>displayChannelContent\<close>. For every list of posts the call
  returns (with any positive bound on the depth of \<open>createNestedPosts\<close>), and the paths in
  \<open>activePosts\<close> are exactly the paths of the posts without a parent or with an empty
  one: one element is constructed for each of these and none for a reply. So a list with
  a reply leaves fewer entries than posts.
\<close>

theorem displayChannelContent_indexes_top_level_only:
  assumes "0 < fuel"
  shows "\<exists>v'. displayChannelContent fuel ch posts ws u v = Some (Returned v')
       \<and> dom (activePosts v') = {path p |p. p \<in> set posts \<and> \<not> truthy (parent (doc p))}
       \<and> length (elems v')
           = length (elems v) + length (filter (\<lambda>p. \<not> truthy (parent (doc p))) posts)"
proof -
  from assms obtain k where k: "fuel = Suc k" by (cases fuel) auto
  from displayChannelContent_result [of k ch posts ws u v] obtain v' where
    r: "displayChannelContent (Suc k) ch posts ws u v = Some (Returned v')"
    and a: "active_index v' = foldl (index_step u) Map.empty (map copy_post posts)"
    and l: "length (elems v') = length (elems v) + length (filter is_root (map copy_post posts))"
    by blast
  have "dom (activePosts v') = {sp_path p |p. p \<in> set (map copy_post posts) \<and> is_root p}"
    using a dom_active_index [of v'] by (simp add: dom_index_step_foldl)
  also have "\<dots> = {path p |p. p \<in> set posts \<and> \<not> truthy (parent (doc p))}"
  proof (intro set_eqI iffI)
    fix x assume "x \<in> {sp_path p |p. p \<in> set (map copy_post posts) \<and> is_root p}"
    then show "x \<in> {path p |p. p \<in> set posts \<and> \<not> truthy (parent (doc p))}"
      by (auto simp: copy_post_def is_root_def)
  next
    fix x assume "x \<in> {path p |p. p \<in> set posts \<and> \<not> truthy (parent (doc p))}"
    then obtain p where p: "x = path p" "p \<in> set posts" "\<not> truthy (parent (doc p))"
      by blast
    then have "x = sp_path (copy_post p) \<and> copy_post p \<in> set (map copy_post posts)
                 \<and> is_root (copy_post p)"
      by (simp add: copy_post_def is_root_def)
    then show "x \<in> {sp_path p |p. p \<in> set (map copy_post posts) \<and> is_root p}" by blast
  qed
  finally have d:
    "dom (activePosts v') = {path p |p. p \<in> set posts \<and> \<not> truthy (parent (doc p))}" .
  have "filter is_root (map copy_post posts)
          = map copy_post (filter (\<lambda>p. \<not> truthy (parent (doc p))) posts)"
    by (induction posts) (simp_all add: is_root_def copy_post_def)
  with l have "length (elems v')
                 = length (elems v) + length (filter (\<lambda>p. \<not> truthy (parent (doc p))) posts)"
    by simp
  with r d k show ?thesis by blast
qed

theorem displayChannelContent_indexes_top_level_only_witness:
  "(0::nat) < 1
   \<and> length post_and_reply = 2
   \<and> dom (activePosts (returned
        (displayChannelContent 1 ''general'' post_and_reply ''w'' ''alice'' new_View))) = {''p1''}
   \<and> card (dom (activePosts (returned
        (displayChannelContent 1 ''general'' post_and_reply ''w'' ''alice'' new_View)))) = 1
   \<and> map postId (elems (returned
        (displayChannelContent 1 ''general'' post_and_reply ''w'' ''alice'' new_View))) = [''p1'']
   \<and> channelPosts (returned
        (displayChannelContent 1 ''general'' post_and_reply ''w'' ''alice'' new_View)) = [PostNode 0]
   \<and> replies (elems (returned
        (displayChannelContent 1 ''general'' post_and_reply ''w'' ''alice'' new_View)) ! 0) = []"
proof -
  have e: "(0::nat) < 1
       \<and> length post_and_reply = 2
       \<and> dom (activePosts (returned
            (displayChannelContent 1 ''general'' post_and_reply ''w'' ''alice'' new_View))) = {''p1''}
       \<and> card (dom (activePosts (returned
            (displayChannelContent 1 ''general'' post_and_reply ''w'' ''alice'' new_View)))) = 1
       \<and> map postId (elems (returned
            (displayChannelContent 1 ''general'' post_and_reply ''w'' ''alice'' new_View))) = [''p1'']
       \<and> channelPosts (returned
            (displayChannelContent 1 ''general'' post_and_reply ''w'' ''alice'' new_View)) = [PostNode 0]
       \<and> replies (elems (returned
            (displayChannelContent 1 ''general'' post_and_reply ''w'' ''alice'' new_View)) ! 0) = []"
    by (simp add: load_eval view_eval del: createNestedPosts.simps)
  show ?thesis
    using displayChannelContent_indexes_top_level_only
      [of 1 "''general''" post_and_reply "''w''" "''alice''" new_View] e
    by blast
qed

text \<open>
  Claim C7. Two loads in succession leave the active index (as a map from paths to
  element states), the reply buffer and the reply cursor equal to those after the second
  load alone. But a load discards neither the entries of the reply buffer nor the reply
  cursor: it leaves \<open>replyBuffer\<close>, \<open>activeReply\<close> and \<open>activeReplyBox\<close> as they
  were, so the second half of the claim does not hold of \<open>displayChannelContent\<close>.
\<close>

theorem displayChannelContent_keeps_buffer_and_cursor:
  assumes "0 < fuel"
  shows "\<exists>v1 v12 v2.
           displayChannelContent fuel chA postsA wsA uA v = Some (Returned v1)
         \<and> displayChannelContent fuel chB postsB wsB uB v1 = Some (Returned v12)
         \<and> displayChannelContent fuel chB postsB wsB uB v = Some (Returned v2)
         \<and> active_index v12 = active_index v2
         \<and> replyBuffer v12 = replyBuffer v2 \<and> activeReply v12 = activeReply v2
         \<and> activeReplyBox v12 = activeReplyBox v2 \<and> currChannel v12 = currChannel v2
         \<and> replyBuffer v2 = replyBuffer v \<and> activeReply v2 = activeReply v
         \<and> activeReplyBox v2 = activeReplyBox v"
proof -
  from assms obtain k where k: "fuel = Suc k" by (cases fuel) auto
  from displayChannelContent_result [of k chA postsA wsA uA v] obtain v1 where
    r1: "displayChannelContent (Suc k) chA postsA wsA uA v = Some (Returned v1)"
    and f1: "replyBuffer v1 = replyBuffer v" "activeReply v1 = activeReply v"
            "activeReplyBox v1 = activeReplyBox v"
    by blast
  from displayChannelContent_result [of k chB postsB wsB uB v1] obtain v12 where
    r12: "displayChannelContent (Suc k) chB postsB wsB uB v1 = Some (Returned v12)"
    and a12: "active_index v12 = foldl (index_step uB) Map.empty (map copy_post postsB)"
    and f12: "replyBuffer v12 = replyBuffer v1" "activeReply v12 = activeReply v1"
             "activeReplyBox v12 = activeReplyBox v1" "currChannel v12 = (chB, wsB)"
    by blast
  from displayChannelContent_result [of k chB postsB wsB uB v] obtain v2 where
    r2: "displayChannelContent (Suc k) chB postsB wsB uB v = Some (Returned v2)"
    and a2: "active_index v2 = foldl (index_step uB) Map.empty (map copy_post postsB)"
    and f2: "replyBuffer v2 = replyBuffer v" "activeReply v2 = activeReply v"
            "activeReplyBox v2 = activeReplyBox v" "currChannel v2 = (chB, wsB)"
    by blast
  from r1 r12 r2 a12 a2 f1 f12 f2 k show ?thesis by simp
qed

theorem displayChannelContent_keeps_buffer_and_cursor_witness:
  "(0::nat) < 1
   \<and> replyBuffer view_with_orphan_and_reply_box ''p9'' = Some 1
   \<and> activeReply view_with_orphan_and_reply_box = Some ''p1''
   \<and> activeReplyBox view_with_orphan_and_reply_box = Some 0
   \<and> activePosts (returned (displayChannelContent 1 ''random'' [] ''w'' ''alice''
        view_with_orphan_and_reply_box)) = Map.empty
   \<and> replyBuffer (returned (displayChannelContent 1 ''random'' [] ''w'' ''alice''
        view_with_orphan_and_reply_box)) ''p9'' = Some 1
   \<and> activeReply (returned (displayChannelContent 1 ''random'' [] ''w'' ''alice''
        view_with_orphan_and_reply_box)) = Some ''p1''
   \<and> activeReplyBox (returned (displayChannelContent 1 ''random'' [] ''w'' ''alice''
        view_with_orphan_and_reply_box)) = Some 0"
proof -
  have e: "(0::nat) < 1
       \<and> replyBuffer view_with_orphan_and_reply_box ''p9'' = Some 1
       \<and> activeReply view_with_orphan_and_reply_box = Some ''p1''
       \<and> activeReplyBox view_with_orphan_and_reply_box = Some 0
       \<and> activePosts (returned (displayChannelContent 1 ''random'' [] ''w'' ''alice''
            view_with_orphan_and_reply_box)) = Map.empty
       \<and> replyBuffer (returned (displayChannelContent 1 ''random'' [] ''w'' ''alice''
            view_with_orphan_and_reply_box)) ''p9'' = Some 1
       \<and> activeReply (returned (displayChannelContent 1 ''random'' [] ''w'' ''alice''
            view_with_orphan_and_reply_box)) = Some ''p1''
       \<and> activeReplyBox (returned (displayChannelContent 1 ''random'' [] ''w'' ''alice''
            view_with_orphan_and_reply_box)) = Some 0"
    by (simp add: load_eval view_eval del: createNestedPosts.simps)
  show ?thesis
    using displayChannelContent_keeps_buffer_and_cursor
      [of 1 "''general''" "[]" "''w''" "''alice''" view_with_orphan_and_reply_box
          "''random''" "[]" "''w''" "''alice''"] e
    by blast
qed

end
